theory Spec2Isabelle
  imports Main "HOL-Library.Sublist"
begin

section \<open>Tetfu: the fumen codec of scripts/fumen-parser.js\<close>

text \<open>
  A JavaScript string is a sequence of UTF-16 code units. A code unit is modelled as a
  natural number and a string as the list of its code units; \<open>js\<close> turns an ASCII
  literal into such a string. JavaScript numbers that hold cell codes, piece fields and
  intermediate values of the encoder are modelled as unbounded integers, digit values,
  cursor positions and counters that cannot go negative as natural numbers.
\<close>

type_synonym jschar = nat
type_synonym jsstring = "nat list"

abbreviation js :: "string \<Rightarrow> jsstring" where
  "js s \<equiv> map of_char s"

subsection \<open>Constants and the page classes\<close>

definition FIELD_WIDTH :: nat where
  "FIELD_WIDTH = 10"

definition FIELD_HEIGHT :: nat where
  "FIELD_HEIGHT = 24"

definition FIELD_NUM_CELLS :: nat where
  "FIELD_NUM_CELLS = FIELD_WIDTH * FIELD_HEIGHT"

definition FUMEN_VERSION :: jsstring where
  "FUMEN_VERSION = js ''v115@''"

text \<open>The members of \<open>MinoType\<close> and \<open>Rotation\<close> are plain numbers in the source.\<close>

definition N_BLOCK :: int where "N_BLOCK = 0"
definition G_BLOCK :: int where "G_BLOCK = 8"
definition North :: int where "North = 2"

record Piece =
  type :: int
  rotation :: int
  location :: int

record Flags =
  raise :: bool
  mirror :: bool
  color :: bool
  lock :: bool
  comment :: jsstring

record FumenPage =
  field :: "int list"
  piece :: Piece
  flags :: Flags

text \<open>The three constructors.\<close>

definition new_Piece :: Piece where
  "new_Piece = \<lparr>type = N_BLOCK, rotation = North, location = 0\<rparr>"

definition new_Flags :: Flags where
  "new_Flags = \<lparr>raise = False, mirror = False, color = True, lock = True, comment = []\<rparr>"

definition new_FumenPage :: FumenPage where
  "new_FumenPage = \<lparr>field = replicate FIELD_NUM_CELLS 0, piece = new_Piece, flags = new_Flags\<rparr>"

subsection \<open>Iterating a string by code point\<close>

text \<open>
  \<open>for (const char of str)\<close> yields one string per code point: a high surrogate followed
  by a low surrogate is one element of two code units, every other code unit is an
  element of its own.
\<close>

fun codePoints :: "jsstring \<Rightarrow> jsstring list" where
  "codePoints [] = []"
| "codePoints [c] = [[c]]"
| "codePoints (c # d # cs) =
     (if 55296 \<le> c \<and> c \<le> 56319 \<and> 56320 \<le> d \<and> d \<le> 57343
      then [c, d] # codePoints cs
      else [c] # codePoints (d # cs))"

text \<open>\<open>String.fromCharCode\<close> keeps the low 16 bits of its argument.\<close>

definition fromCharCode :: "nat \<Rightarrow> jschar" where
  "fromCharCode n = n mod 65536"

subsection \<open>details: the alphabet and the digit groups\<close>

definition ENCODE_TABLE :: jsstring where
  "ENCODE_TABLE = js ''ABCDEFGHIJKLMNOPQRSTUVWXYZabcdefghijklmnopqrstuvwxyz0123456789+/''"

text \<open>\<open>init\<close> fills the map with one entry per symbol, keyed by the one-character string.\<close>

definition DECODE_TABLE :: "jsstring \<rightharpoonup> nat" where
  "DECODE_TABLE = fold (\<lambda>i m. m([ENCODE_TABLE ! i] \<mapsto> i)) [0..<64] Map.empty"

text \<open>
  JavaScript's \<open>%\<close> takes the sign of the dividend; \<open>Math.floor(a / b)\<close> is \<open>div\<close>.
\<close>

definition js_rem :: "int \<Rightarrow> int \<Rightarrow> int" where
  "js_rem a b = (if 0 \<le> a then a mod b else - ((- a) mod b))"

text \<open>
  \<open>ENCODE_TABLE[k]\<close> appended to a string: the symbol when \<open>k\<close> is an index of the table,
  the text \<open>undefined\<close> otherwise.
\<close>

definition table_symbol :: "int \<Rightarrow> jsstring" where
  "table_symbol k = (if 0 \<le> k \<and> k < 64 then [ENCODE_TABLE ! nat k] else js ''undefined'')"

fun unpoll :: "int \<Rightarrow> nat \<Rightarrow> jsstring" where
  "unpoll v 0 = []"
| "unpoll v (Suc numChars) = table_symbol (js_rem v 64) @ unpoll (v div 64) numChars"

datatype error = StreamEnded

text \<open>The summation loop of \<open>poll\<close>; the first numeric argument counts the iterations left.\<close>

fun poll_loop :: "nat list \<Rightarrow> nat \<Rightarrow> nat \<Rightarrow> nat \<Rightarrow> nat \<Rightarrow> nat \<Rightarrow> nat" where
  "poll_loop data pos 0 i v multiplier = v"
| "poll_loop data pos (Suc n) i v multiplier =
     poll_loop data pos n (Suc i) (v + data ! (pos + i) * multiplier) (multiplier * 64)"

text \<open>\<open>poll\<close> returns the value read and the advanced cursor, or throws.\<close>

definition poll :: "nat list \<Rightarrow> nat \<Rightarrow> nat \<Rightarrow> error + nat \<times> nat" where
  "poll data pos count =
     (if pos + count > length data then Inl StreamEnded
      else Inr (poll_loop data pos count 0 0 1, pos + count))"

subsection \<open>details: percent encoding\<close>

definition hex_digit :: "nat \<Rightarrow> jschar" where
  "hex_digit d = (if d < 10 then 48 + d else 55 + d)"

text \<open>\<open>code.toString(16).toUpperCase()\<close>\<close>

fun toString16 :: "nat \<Rightarrow> jsstring" where
  "toString16 n = (if n < 16 then [hex_digit n] else toString16 (n div 16) @ [hex_digit (n mod 16)])"

declare toString16.simps [simp del]

definition percentEncode_char :: "jsstring \<Rightarrow> jsstring" where
  "percentEncode_char char =
     (let code = hd char in
      if (code \<ge> 48 \<and> code \<le> 57) \<or> (code \<ge> 65 \<and> code \<le> 90) \<or> (code \<ge> 97 \<and> code \<le> 122) \<or>
         char = js ''-'' \<or> char = js ''_'' \<or> char = js ''.'' \<or> char = js ''~''
      then char
      else (let hex = toString16 code in
            js ''%'' @ (if length hex < 2 then js ''0'' else []) @ hex))"

definition percentEncode :: "jsstring \<Rightarrow> jsstring" where
  "percentEncode str = concat (map percentEncode_char (codePoints str))"

text \<open>The test \<open>/^[0-9A-Fa-f]{2}$/\<close> on a two-character string, and \<open>parseInt(hex, 16)\<close>.\<close>

definition is_hex :: "jschar \<Rightarrow> bool" where
  "is_hex c \<longleftrightarrow> (48 \<le> c \<and> c \<le> 57) \<or> (65 \<le> c \<and> c \<le> 70) \<or> (97 \<le> c \<and> c \<le> 102)"

definition hex_value :: "jschar \<Rightarrow> nat" where
  "hex_value c = (if c \<le> 57 then c - 48 else if c \<le> 70 then c - 55 else c - 87)"

text \<open>
  The loop of \<open>percentDecode\<close> by structural recursion on the rest of the string from
  index \<open>i\<close>: \<open>i + 2 < str.length\<close> holds when two more characters follow \<open>str[i]\<close>.
\<close>

fun percentDecode :: "jsstring \<Rightarrow> jsstring" where
  "percentDecode (c # h1 # h2 # cs) =
     (if c = 37 then
        (if is_hex h1 \<and> is_hex h2
         then fromCharCode (hex_value h1 * 16 + hex_value h2) # percentDecode cs
         else c # percentDecode (h1 # h2 # cs))
      else c # percentDecode (h1 # h2 # cs))"
| "percentDecode (c # cs) = c # percentDecode cs"
| "percentDecode [] = []"

subsection \<open>Fumen.decode\<close>

text \<open>The digit list: fillers are skipped, an unknown symbol counts as 0.\<close>

definition numData_of :: "jsstring \<Rightarrow> nat list" where
  "numData_of data =
     map (\<lambda>char. case DECODE_TABLE char of None \<Rightarrow> 0 | Some v \<Rightarrow> v)
       (filter (\<lambda>char. char \<noteq> js ''?'') (codePoints data))"

text \<open>
  The inner \<open>for\<close> loop of the field parse; the first numeric argument is the number of
  iterations left (\<open>repeat - i\<close>). It returns the field and \<open>cellCount\<close>.
\<close>

fun fill_cells :: "int list \<Rightarrow> int list \<Rightarrow> int \<Rightarrow> nat \<Rightarrow> nat \<Rightarrow> int list \<times> nat" where
  "fill_cells cur prev diff 0 cellCount = (cur, cellCount)"
| "fill_cells cur prev diff (Suc n) cellCount =
     (if cellCount < FIELD_NUM_CELLS
      then fill_cells (cur[cellCount := prev ! cellCount + diff - 8]) prev diff n (Suc cellCount)
      else (cur, cellCount))"

text \<open>The loop \<open>while (cellCount < FIELD_NUM_CELLS)\<close>.\<close>

function decode_field ::
  "nat list \<Rightarrow> nat \<Rightarrow> int list \<Rightarrow> int list \<Rightarrow> nat \<Rightarrow> error + int list \<times> nat" where
  "decode_field numData pos prev cur cellCount =
     (if cellCount < FIELD_NUM_CELLS then
        (case poll numData pos 2 of
           Inl e \<Rightarrow> Inl e
         | Inr r \<Rightarrow>
             (let diff = fst r div FIELD_NUM_CELLS;
                  repeat = fst r mod FIELD_NUM_CELLS + 1;
                  filled = fill_cells cur prev (int diff) repeat cellCount
              in decode_field numData (snd r) prev (fst filled) (snd filled)))
      else Inr (cur, pos))"
  by pat_completeness auto
termination
proof (relation "measure (\<lambda>(numData, pos, prev, cur, cellCount). FIELD_NUM_CELLS - cellCount)")
  have filled: "snd (fill_cells cur prev diff n cellCount) = min (cellCount + n) FIELD_NUM_CELLS"
    if "cellCount \<le> FIELD_NUM_CELLS" for cur prev diff n cellCount
    using that by (induction n arbitrary: cur cellCount) auto
  fix numData :: "nat list" and pos :: nat and prev cur :: "int list" and cellCount :: nat
    and r :: "nat \<times> nat" and diff repeat :: nat and f :: "int list \<times> nat"
  assume "cellCount < FIELD_NUM_CELLS" "repeat = fst r mod FIELD_NUM_CELLS + 1"
    "f = fill_cells cur prev (int diff) repeat cellCount"
  then show "((numData, snd r, prev, fst f, snd f), (numData, pos, prev, cur, cellCount))
    \<in> measure (\<lambda>(numData, pos, prev, cur, cellCount). FIELD_NUM_CELLS - cellCount)"
    by (simp add: filled)
qed simp

declare decode_field.simps [simp del]

text \<open>The packed descriptor, taken apart in the order of the source.\<close>

definition unpack_descriptor :: "nat \<Rightarrow> FumenPage \<Rightarrow> FumenPage \<times> bool" where
  "unpack_descriptor v0 currentPage =
     (let t = v0 mod 8; v1 = v0 div 8;
          r = v1 mod 4; v2 = v1 div 4;
          l = v2 mod FIELD_NUM_CELLS; v3 = v2 div FIELD_NUM_CELLS;
          ra = (v3 mod 2 \<noteq> 0); v4 = v3 div 2;
          mi = (v4 mod 2 \<noteq> 0); v5 = v4 div 2;
          co = (v5 mod 2 \<noteq> 0); v6 = v5 div 2;
          hasComment = (v6 mod 2 \<noteq> 0); v7 = v6 div 2;
          lo = (v7 mod 2 = 0)
      in (currentPage
            \<lparr>piece := \<lparr>type = int t, rotation = int r, location = int l\<rparr>,
             flags := (flags currentPage)\<lparr>raise := ra, mirror := mi, color := co, lock := lo\<rparr>\<rparr>,
          hasComment))"

text \<open>The four characters of one chunk; the first argument counts the iterations left.\<close>

fun chunk_chars :: "nat \<Rightarrow> nat \<Rightarrow> jsstring" where
  "chunk_chars 0 chunkValue = []"
| "chunk_chars (Suc n) chunkValue =
     fromCharCode (chunkValue mod 96 + 32) # chunk_chars n (chunkValue div 96)"

fun decode_chunks :: "nat list \<Rightarrow> nat \<Rightarrow> nat \<Rightarrow> jsstring \<Rightarrow> error + jsstring \<times> nat" where
  "decode_chunks numData pos 0 escapedComment = Inr (escapedComment, pos)"
| "decode_chunks numData pos (Suc n) escapedComment =
     (case poll numData pos 5 of
        Inl e \<Rightarrow> Inl e
      | Inr r \<Rightarrow> decode_chunks numData (snd r) n (escapedComment @ chunk_chars 4 (fst r)))"

definition decode_comment :: "nat list \<Rightarrow> nat \<Rightarrow> error + jsstring \<times> nat" where
  "decode_comment numData pos =
     (case poll numData pos 2 of
        Inl e \<Rightarrow> Inl e
      | Inr r \<Rightarrow>
          (let len = fst r; numChunks = (len + 3) div 4 in
           case decode_chunks numData (snd r) numChunks [] of
             Inl e \<Rightarrow> Inl e
           | Inr c \<Rightarrow> Inr (percentDecode (take len (fst c)), snd c)))"

text \<open>One iteration of the page loop: the page parsed and the cursor after it.\<close>

definition decode_page :: "nat list \<Rightarrow> FumenPage \<Rightarrow> nat \<Rightarrow> error + FumenPage \<times> nat" where
  "decode_page numData prevPage pos =
     (case decode_field numData pos (field prevPage) (field new_FumenPage) 0 of
        Inl e \<Rightarrow> Inl e
      | Inr f \<Rightarrow>
          (case poll numData (snd f) 3 of
             Inl e \<Rightarrow> Inl e
           | Inr r \<Rightarrow>
               (let u = unpack_descriptor (fst r) (new_FumenPage\<lparr>field := fst f\<rparr>) in
                if snd u then
                  (case decode_comment numData (snd r) of
                     Inl e \<Rightarrow> Inl e
                   | Inr c \<Rightarrow> Inr ((fst u)\<lparr>flags := (flags (fst u))\<lparr>comment := fst c\<rparr>\<rparr>, snd c))
                else Inr (fst u, snd r))))"

text \<open>
  The loop \<open>while (pos.value < numData.length)\<close>; \<open>pages\<close> is the list held by the
  \<open>Fumen\<close> object under construction.
\<close>

function decode_loop ::
  "nat list \<Rightarrow> FumenPage \<Rightarrow> nat \<Rightarrow> FumenPage list \<Rightarrow> error + FumenPage list" where
  "decode_loop numData prevPage pos pages =
     (if pos < length numData then
        (case decode_page numData prevPage pos of
           Inl e \<Rightarrow> Inl e
         | Inr r \<Rightarrow> decode_loop numData (fst r) (snd r) (pages @ [fst r]))
      else Inr pages)"
  by pat_completeness auto
termination
proof (relation "measure (\<lambda>(numData, prevPage, pos, pages). length numData - pos)")
  have polled: "snd r = pos + count \<and> pos + count \<le> length data"
    if "poll data pos count = Inr r" for data pos count r
    using that by (auto simp: poll_def split: if_splits)
  have fielded: "pos \<le> snd f"
    if "decode_field numData pos prev cur cellCount = Inr f" for numData pos prev cur cellCount f
    using that
  proof (induction numData pos prev cur cellCount rule: decode_field.induct)
    case (1 numData pos prev cur cellCount)
    show ?case
    proof (cases "cellCount < FIELD_NUM_CELLS")
      case True
      from "1.prems" True obtain r where r: "poll numData pos 2 = Inr r"
        by (subst (asm) decode_field.simps) (cases "poll numData pos 2", simp_all)
      define filled where "filled = fill_cells cur prev (int (fst r div FIELD_NUM_CELLS))
        (fst r mod FIELD_NUM_CELLS + 1) cellCount"
      from "1.prems" True r
      have "decode_field numData (snd r) prev (fst filled) (snd filled) = Inr f"
        unfolding filled_def by (subst (asm) decode_field.simps) (simp add: Let_def)
      from "1.IH" [OF True r refl refl refl this [unfolded filled_def]] polled [OF r]
      show ?thesis by simp
    next
      case False
      with "1.prems" show ?thesis
        by (subst (asm) decode_field.simps) auto
    qed
  qed
  have chunked: "p \<le> snd c"
    if "decode_chunks numData p n e = Inr c" for numData p n e c
    using that
  proof (induction n arbitrary: p e)
    case 0
    then show ?case by auto
  next
    case (Suc n)
    from Suc.prems obtain q where q: "poll numData p 5 = Inr q"
      and c: "decode_chunks numData (snd q) n (e @ chunk_chars 4 (fst q)) = Inr c"
      by (auto split: sum.splits)
    from polled [OF q] Suc.IH [OF c] show ?case by simp
  qed
  have commented: "p \<le> snd c"
    if "decode_comment numData p = Inr c" for numData p c
  proof -
    from that obtain q d where q: "poll numData p 2 = Inr q"
      and d: "decode_chunks numData (snd q) ((fst q + 3) div 4) [] = Inr d" and c: "snd c = snd d"
      by (auto simp: decode_comment_def Let_def split: sum.splits)
    from polled [OF q] chunked [OF d] c show ?thesis by simp
  qed
  fix numData :: "nat list" and prevPage :: FumenPage and pos :: nat
    and pages :: "FumenPage list" and r :: "FumenPage \<times> nat"
  assume less: "pos < length numData" and page: "decode_page numData prevPage pos = Inr r"
  from page obtain f
    where f: "decode_field numData pos (field prevPage) (field new_FumenPage) 0 = Inr f"
    unfolding decode_page_def by (cases "decode_field numData pos (field prevPage) (field new_FumenPage) 0") simp_all
  from page f obtain q where q: "poll numData (snd f) 3 = Inr q"
    unfolding decode_page_def by (cases "poll numData (snd f) 3") simp_all
  define u where "u = unpack_descriptor (fst q) (new_FumenPage\<lparr>field := fst f\<rparr>)"
  have "snd q \<le> snd r"
  proof (cases "snd u")
    case True
    with page f q obtain c where c: "decode_comment numData (snd q) = Inr c"
      unfolding decode_page_def u_def by (cases "decode_comment numData (snd q)") simp_all
    with page f q True have "snd r = snd c"
      unfolding decode_page_def u_def by (auto simp: Let_def)
    with commented [OF c] show ?thesis by simp
  next
    case False
    with page f q show ?thesis
      unfolding decode_page_def u_def by (auto simp: Let_def)
  qed
  with fielded [OF f] polled [OF q] have "pos < snd r"
    by simp
  with less show "((numData, fst r, snd r, pages @ [fst r]), (numData, prevPage, pos, pages))
    \<in> measure (\<lambda>(numData, prevPage, pos, pages). length numData - pos)"
    by simp
qed simp

declare decode_loop.simps [simp del]

text \<open>
  \<open>decode\<close>: \<open>Inr None\<close> is the returned \<open>null\<close>, \<open>Inr (Some pages)\<close> the returned
  \<open>Fumen\<close> object with its pages, \<open>Inl e\<close> an exception reaching the caller. The
  \<open>catch\<close> clause turns what the loop throws into \<open>null\<close>.
\<close>

definition decode :: "jsstring \<Rightarrow> error + FumenPage list option" where
  "decode data =
     (if \<not> prefix FUMEN_VERSION data then Inr None
      else
        (let numData = numData_of (drop (length FUMEN_VERSION) data) in
         case decode_loop numData new_FumenPage 0 [] of
           Inl e \<Rightarrow> Inr None
         | Inr pages \<Rightarrow> Inr (Some pages)))"

subsection \<open>Fumen.encode\<close>

definition run_value :: "int \<Rightarrow> int \<Rightarrow> int" where
  "run_value lastDiff diffCount = lastDiff * int FIELD_NUM_CELLS + diffCount - 1"

text \<open>
  The loop over the cells. A page's \<open>field\<close> is an array of \<open>FIELD_NUM_CELLS\<close> numbers
  (the constructor makes it so), hence every read \<open>field[i]\<close> is in range.
\<close>

function encode_field_loop ::
  "int list \<Rightarrow> int list \<Rightarrow> nat \<Rightarrow> int \<Rightarrow> int \<Rightarrow> jsstring \<Rightarrow> jsstring" where
  "encode_field_loop cur prev i diffCount lastDiff result =
     (if i < FIELD_NUM_CELLS then
        (let diff = cur ! i - prev ! i + 8 in
         if i > 0 \<and> diff \<noteq> lastDiff
         then encode_field_loop cur prev (Suc i) 1 diff
                (result @ unpoll (run_value lastDiff diffCount) 2)
         else encode_field_loop cur prev (Suc i) (diffCount + 1) diff result)
      else result @ unpoll (run_value lastDiff diffCount) 2)"
  by pat_completeness auto
termination
  by (relation "measure (\<lambda>(cur, prev, i, diffCount, lastDiff, result). FIELD_NUM_CELLS - i)") auto

declare encode_field_loop.simps [simp del]

definition pack_descriptor :: "FumenPage \<Rightarrow> bool \<Rightarrow> int" where
  "pack_descriptor currentPage hasComment =
     (let v0 = 0;
          v1 = (if lock (flags currentPage) then 0 else 1) + v0 * 2;
          v2 = (if hasComment then 1 else 0) + v1 * 2;
          v3 = (if color (flags currentPage) then 1 else 0) + v2 * 2;
          v4 = (if mirror (flags currentPage) then 1 else 0) + v3 * 2;
          v5 = (if raise (flags currentPage) then 1 else 0) + v4 * 2;
          v6 = location (piece currentPage) + v5 * int FIELD_NUM_CELLS;
          v7 = rotation (piece currentPage) + v6 * 4;
          v8 = type (piece currentPage) + v7 * 8
      in v8)"

text \<open>
  The value of the chunk that starts at index \<open>i\<close>; the first numeric argument after
  \<open>i\<close> counts the iterations left.
\<close>

fun chunk_loop :: "jsstring \<Rightarrow> nat \<Rightarrow> nat \<Rightarrow> nat \<Rightarrow> int \<Rightarrow> int \<Rightarrow> int" where
  "chunk_loop escapedComment i 0 j chunkValue multiplier = chunkValue"
| "chunk_loop escapedComment i (Suc n) j chunkValue multiplier =
     (let char = (if i + j < length escapedComment then escapedComment ! (i + j) else 32) in
      chunk_loop escapedComment i n (Suc j)
        (chunkValue + (int char - 32) * multiplier) (multiplier * 96))"

function encode_chunks :: "jsstring \<Rightarrow> nat \<Rightarrow> jsstring \<Rightarrow> jsstring" where
  "encode_chunks escapedComment i result =
     (if i < length escapedComment
      then encode_chunks escapedComment (i + 4)
             (result @ unpoll (chunk_loop escapedComment i 4 0 0 1) 5)
      else result)"
  by pat_completeness auto
termination
  by (relation "measure (\<lambda>(escapedComment, i, result). length escapedComment - i)") auto

declare encode_chunks.simps [simp del]

text \<open>What one iteration of the page loop appends to \<open>result\<close>.\<close>

definition encode_page :: "FumenPage \<Rightarrow> FumenPage \<Rightarrow> jsstring \<Rightarrow> jsstring" where
  "encode_page prevPage currentPage result =
     (let result1 = encode_field_loop (field currentPage) (field prevPage) 0 0 0 result;
          hasComment = (length (comment (flags currentPage)) > 0);
          result2 = result1 @ unpoll (pack_descriptor currentPage hasComment) 3
      in if hasComment then
           (let escapedComment = percentEncode (comment (flags currentPage));
                result3 = result2 @ unpoll (int (length escapedComment)) 2
            in encode_chunks escapedComment 0 result3)
         else result2)"

fun encode_loop :: "FumenPage \<Rightarrow> FumenPage list \<Rightarrow> jsstring \<Rightarrow> jsstring" where
  "encode_loop prevPage [] result = result"
| "encode_loop prevPage (currentPage # pages) result =
     encode_loop currentPage pages (encode_page prevPage currentPage result)"

definition encode :: "FumenPage list \<Rightarrow> jsstring" where
  "encode pages = encode_loop new_FumenPage pages FUMEN_VERSION"

subsection \<open>Auxiliary definitions\<close>

text \<open>The characters that \<open>percentEncode\<close> passes through.\<close>

definition unreserved :: "jschar \<Rightarrow> bool" where
  "unreserved c \<longleftrightarrow> (48 \<le> c \<and> c \<le> 57) \<or> (65 \<le> c \<and> c \<le> 90) \<or> (97 \<le> c \<and> c \<le> 122) \<or>
     c = 45 \<or> c = 95 \<or> c = 46 \<or> c = 126"

text \<open>The little-endian value of a digit list and the base-64 digits of a number.\<close>

fun le_value :: "nat list \<Rightarrow> nat" where
  "le_value [] = 0"
| "le_value (d # ds) = d + 64 * le_value ds"

fun digits64 :: "nat \<Rightarrow> nat \<Rightarrow> nat list" where
  "digits64 v 0 = []"
| "digits64 v (Suc n) = v mod 64 # digits64 (v div 64) n"

text \<open>The digit that \<open>decode\<close> assigns to a single-unit symbol.\<close>

definition digit_of :: "jschar \<Rightarrow> nat" where
  "digit_of c = (case DECODE_TABLE [c] of None \<Rightarrow> 0 | Some v \<Rightarrow> v)"

text \<open>The biased difference of cell \<open>i\<close>, as the encoder computes it.\<close>

definition field_diff :: "int list \<Rightarrow> int list \<Rightarrow> nat \<Rightarrow> int" where
  "field_diff prev cur i = cur ! i - prev ! i + 8"

text \<open>
  The field of a page can be written against the field of the page before it: every
  biased difference lies in \<open>[0, 17]\<close>, and no 17 consecutive cells all have the
  difference 17 (a run of difference 17 is at most 16 cells long).
\<close>

definition diffs_fit :: "int list \<Rightarrow> int list \<Rightarrow> bool" where
  "diffs_fit prev cur \<longleftrightarrow>
     list_all (\<lambda>i. 0 \<le> field_diff prev cur i \<and> field_diff prev cur i \<le> 17) [0..<FIELD_NUM_CELLS] \<and>
     list_all (\<lambda>i. list_ex (\<lambda>k. field_diff prev cur (i + k) \<noteq> 17) [0..<17])
       [0..<FIELD_NUM_CELLS - 16]"

text \<open>A flag as the digit the encoder packs.\<close>

definition bit_of :: "bool \<Rightarrow> nat" where
  "bit_of b = (if b then 1 else 0)"

text \<open>
  The character the encoder takes at offset \<open>j\<close> of the chunk that starts at index \<open>i\<close>
  (a space beyond the end of the string), and the strings of printable ASCII characters.
\<close>

definition chunk_at :: "jsstring \<Rightarrow> nat \<Rightarrow> nat \<Rightarrow> jschar" where
  "chunk_at escapedComment i j = (if i + j < length escapedComment then escapedComment ! (i + j) else 32)"

definition printable :: "jsstring \<Rightarrow> bool" where
  "printable s \<longleftrightarrow> list_all (\<lambda>c. 32 \<le> c \<and> c < 128) s"

text \<open>The comment block that \<open>encode\<close> appends for a page.\<close>

definition encode_comment :: "FumenPage \<Rightarrow> jsstring" where
  "encode_comment p =
     (if comment (flags p) = [] then []
      else encode_chunks (percentEncode (comment (flags p))) 0
             (unpoll (int (length (percentEncode (comment (flags p))))) 2))"

text \<open>
  The range conditions on a page that follows \<open>prevPage\<close>: a field of
  \<open>FIELD_NUM_CELLS\<close> cells whose differences fit, a piece type in \<open>[0, 8)\<close>, a
  rotation in \<open>[0, 4)\<close>, a location in \<open>[0, 240)\<close>, a comment of characters up to code
  point 255 whose escaped form has at most 4095 characters.
\<close>

definition page_fits :: "FumenPage \<Rightarrow> FumenPage \<Rightarrow> bool" where
  "page_fits prevPage p \<longleftrightarrow>
     length (field p) = FIELD_NUM_CELLS \<and> diffs_fit (field prevPage) (field p) \<and>
     0 \<le> type (piece p) \<and> type (piece p) < 8 \<and>
     0 \<le> rotation (piece p) \<and> rotation (piece p) < 4 \<and>
     0 \<le> location (piece p) \<and> location (piece p) < 240 \<and>
     list_all (\<lambda>c. c \<le> 255) (comment (flags p)) \<and>
     length (percentEncode (comment (flags p))) \<le> 4095"

text \<open>Every page of a list satisfies them against the page before it.\<close>

fun pages_fit :: "FumenPage \<Rightarrow> FumenPage list \<Rightarrow> bool" where
  "pages_fit prevPage [] = True"
| "pages_fit prevPage (p # ps) = (page_fits prevPage p \<and> pages_fit p ps)"


section \<open>Properties\<close>

subsection \<open>Percent encoding\<close>

lemma codePoints_single:
  "\<forall>c\<in>set s. c < 55296 \<Longrightarrow> codePoints s = map (\<lambda>c. [c]) s"
  by (induction s rule: codePoints.induct) auto

lemma toString16_byte:
  "c \<le> 255 \<Longrightarrow>
   (if length (toString16 c) < 2 then js ''0'' else []) @ toString16 c =
     [hex_digit (c div 16), hex_digit (c mod 16)]"
proof (cases "c < 16")
  case True
  then show ?thesis
    by (simp add: toString16.simps [of c] hex_digit_def)
next
  case False
  moreover assume "c \<le> 255"
  ultimately have "c div 16 < 16" by simp
  with False show ?thesis
    by (simp add: toString16.simps [of c] toString16.simps [of "c div 16"])
qed

lemma percentEncode_char_byte:
  "c \<le> 255 \<Longrightarrow> percentEncode_char [c] =
     (if unreserved c then [c] else [37, hex_digit (c div 16), hex_digit (c mod 16)])"
  using toString16_byte [of c]
  by (auto simp: percentEncode_char_def unreserved_def Let_def)

lemma percentDecode_plain:
  "c \<noteq> 37 \<Longrightarrow> percentDecode (c # rest) = c # percentDecode rest"
  by (cases "(c # rest)" rule: percentDecode.cases) auto

lemma hex_digit_hex: "d < 16 \<Longrightarrow> is_hex (hex_digit d) \<and> hex_value (hex_digit d) = d"
  by (auto simp: is_hex_def hex_digit_def hex_value_def)

lemma percentDecode_escape:
  assumes "c \<le> 255"
  shows "percentDecode (37 # hex_digit (c div 16) # hex_digit (c mod 16) # rest) =
    c # percentDecode rest"
proof -
  from assms have "c div 16 < 16" "c mod 16 < 16" by simp_all
  then have "is_hex (hex_digit (c div 16))" "is_hex (hex_digit (c mod 16))"
    "hex_value (hex_digit (c div 16)) = c div 16" "hex_value (hex_digit (c mod 16)) = c mod 16"
    by (simp_all add: hex_digit_hex)
  with assms show ?thesis
    by (simp add: fromCharCode_def)
qed

lemma percentDecode_encoded_char:
  assumes "c \<le> 255"
  shows "percentDecode (percentEncode_char [c] @ rest) = c # percentDecode rest"
proof (cases "unreserved c")
  case True
  then have "c \<noteq> 37" by (auto simp: unreserved_def)
  with True assms show ?thesis
    by (simp add: percentEncode_char_byte percentDecode_plain del: percentDecode.simps)
next
  case False
  with assms show ?thesis
    by (simp add: percentEncode_char_byte percentDecode_escape del: percentDecode.simps)
qed

lemma percentDecode_percentEncode_map:
  "\<forall>c\<in>set s. c \<le> 255 \<Longrightarrow>
   percentDecode (concat (map (\<lambda>c. percentEncode_char [c]) s)) = s"
  by (induction s) (simp_all add: percentDecode_encoded_char)

lemma percentDecode_percentEncode:
  assumes "\<forall>c\<in>set s. c \<le> 255"
  shows "percentDecode (percentEncode s) = s"
proof -
  from assms have "\<forall>c\<in>set s. c < 55296" by auto
  then show ?thesis
    using assms by (simp add: percentEncode_def codePoints_single percentDecode_percentEncode_map comp_def)
qed

text \<open>
  Claim C4: for every string made only of characters with code points up to 255,
  \<open>percentDecode (percentEncode s)\<close> is \<open>s\<close>.
\<close>

theorem percent_roundtrip:
  "\<forall>c\<in>set s. c \<le> 255 \<Longrightarrow> percentDecode (percentEncode s) = s"
  by (rule percentDecode_percentEncode)

theorem percent_roundtrip_witness:
  "percentEncode (js ''50% ~ok?'') = js ''50%25%20~ok%3F'' \<and>
   percentDecode (percentEncode (js ''50% ~ok?'')) = js ''50% ~ok?''"
  using percent_roundtrip [of "js ''50% ~ok?''"]
  by (simp add: percentEncode_def percentEncode_char_def toString16.simps hex_digit_def)

subsection \<open>The alphabet and the digit groups\<close>

lemma length_ENCODE_TABLE: "length ENCODE_TABLE = 64"
  by (simp add: ENCODE_TABLE_def)

lemma distinct_ENCODE_TABLE: "distinct ENCODE_TABLE"
  by (simp add: ENCODE_TABLE_def)

lemma ENCODE_TABLE_ascii: "c \<in> set ENCODE_TABLE \<Longrightarrow> c < 128 \<and> c \<noteq> 63"
  by (auto simp: ENCODE_TABLE_def)

lemma fold_upd_lookup:
  "inj_on k {..<n} \<Longrightarrow> d < n \<Longrightarrow>
   fold (\<lambda>i m. m(k i \<mapsto> i)) [0..<n] Map.empty (k d) = Some d"
proof (induction n)
  case 0
  then show ?case by simp
next
  case (Suc n)
  from Suc.prems have inj: "inj_on k {..<n}"
    by (auto simp: inj_on_def)
  show ?case
  proof (cases "d = n")
    case True
    then show ?thesis by simp
  next
    case False
    with Suc.prems have "d < n" by simp
    moreover from Suc.prems False have "k n \<noteq> k d"
      by (auto simp: inj_on_def)
    ultimately show ?thesis
      using Suc.IH [OF inj] by simp
  qed
qed

lemma DECODE_TABLE_ENCODE_TABLE:
  assumes "d < 64"
  shows "DECODE_TABLE [ENCODE_TABLE ! d] = Some d"
proof -
  have "inj_on (\<lambda>i. [ENCODE_TABLE ! i]) {..<64}"
    using distinct_ENCODE_TABLE length_ENCODE_TABLE
    by (auto simp: inj_on_def nth_eq_iff_index_eq)
  from fold_upd_lookup [OF this assms] show ?thesis
    by (simp add: DECODE_TABLE_def)
qed

lemma digit_of_symbol: "d < 64 \<Longrightarrow> digit_of (ENCODE_TABLE ! d) = d"
  by (simp add: digit_of_def DECODE_TABLE_ENCODE_TABLE)

lemma numData_of_ascii:
  assumes "\<forall>c\<in>set s. c < 55296"
  shows "numData_of s = map digit_of (filter (\<lambda>c. c \<noteq> 63) s)"
  using assms
  by (simp add: numData_of_def codePoints_single filter_map comp_def digit_of_def)

lemma unpoll_digits64:
  "0 \<le> v \<Longrightarrow> unpoll v n = map (\<lambda>d. ENCODE_TABLE ! d) (digits64 (nat v) n)"
proof (induction n arbitrary: v)
  case 0
  then show ?case by simp
next
  case (Suc n)
  from Suc.prems have "0 \<le> v div 64" by simp
  from Suc.IH [OF this] Suc.prems show ?case
    by (simp add: js_rem_def table_symbol_def nat_mod_distrib nat_div_distrib)
qed

lemma digits64_less: "d \<in> set (digits64 v n) \<Longrightarrow> d < 64"
  by (induction n arbitrary: v) auto

lemma length_digits64 [simp]: "length (digits64 v n) = n"
  by (induction n arbitrary: v) auto

lemma table_symbol_alphabet: "set (table_symbol k) \<subseteq> set ENCODE_TABLE"
proof (cases "0 \<le> k \<and> k < 64")
  case True
  then have "nat k < length ENCODE_TABLE" by (auto simp: length_ENCODE_TABLE)
  with True show ?thesis by (simp add: table_symbol_def)
next
  case False
  then have "table_symbol k = js ''undefined''"
    unfolding table_symbol_def by (simp only: if_False)
  then show ?thesis by (simp add: ENCODE_TABLE_def)
qed

lemma unpoll_alphabet: "set (unpoll v n) \<subseteq> set ENCODE_TABLE"
  using table_symbol_alphabet by (induction n arbitrary: v) auto

lemma le_value_digits64: "le_value (digits64 v n) = v mod 64 ^ n"
  by (induction n arbitrary: v) (simp_all add: mod_mult2_eq)

lemma poll_loop_le_value:
  "pos + i + n \<le> length data \<Longrightarrow>
   poll_loop data pos n i v m = v + m * le_value (take n (drop (pos + i) data))"
proof (induction n arbitrary: i v m)
  case 0
  then show ?case by simp
next
  case (Suc n)
  from Suc.prems have less: "pos + i < length data" by simp
  then have "take (Suc n) (drop (pos + i) data) = data ! (pos + i) # take n (drop (pos + Suc i) data)"
    by (simp add: Cons_nth_drop_Suc [symmetric])
  moreover from Suc.prems have "pos + Suc i + n \<le> length data" by simp
  note Suc.IH [OF this]
  ultimately show ?case
    by (simp add: algebra_simps)
qed

lemma poll_append:
  "poll (pre @ ds @ post) (length pre) (length ds) = Inr (le_value ds, length pre + length ds)"
  by (simp add: poll_def poll_loop_le_value)

lemma poll_digits64:
  "poll (pre @ digits64 v n @ post) (length pre) n = Inr (v mod 64 ^ n, length pre + n)"
  using poll_append [of pre "digits64 v n" post] by (simp add: le_value_digits64)

lemma numData_of_alphabet:
  assumes "set s \<subseteq> set ENCODE_TABLE"
  shows "numData_of s = map digit_of s"
proof -
  from assms have "\<forall>c\<in>set s. c < 55296 \<and> c \<noteq> 63"
    using ENCODE_TABLE_ascii by fastforce
  then show ?thesis
    by (simp add: numData_of_ascii)
qed

lemma digit_of_unpoll:
  "0 \<le> v \<Longrightarrow> map digit_of (unpoll v n) = digits64 (nat v) n"
  by (simp add: unpoll_digits64 comp_def digit_of_symbol digits64_less map_idI)

lemma length_unpoll: "0 \<le> v \<Longrightarrow> length (unpoll v n) = n"
  by (simp add: unpoll_digits64)

subsection \<open>The field\<close>

lemma N240: "FIELD_NUM_CELLS = 240"
  by (simp add: FIELD_NUM_CELLS_def FIELD_WIDTH_def FIELD_HEIGHT_def)

lemma fill_cells_length: "length (fst (fill_cells cur prev d n c)) = length cur"
  by (induction n arbitrary: cur c) auto

lemma fill_cells_count:
  "c \<le> FIELD_NUM_CELLS \<Longrightarrow> snd (fill_cells cur prev d n c) = min (c + n) FIELD_NUM_CELLS"
  by (induction n arbitrary: cur c) auto

lemma fill_cells_nth:
  "j < length cur \<Longrightarrow>
   fst (fill_cells cur prev d n c) ! j =
     (if c \<le> j \<and> j < c + n \<and> j < FIELD_NUM_CELLS then prev ! j + d - 8 else cur ! j)"
proof (induction n arbitrary: cur c)
  case 0
  then show ?case by simp
next
  case (Suc n)
  show ?case
  proof (cases "c < FIELD_NUM_CELLS")
    case True
    from Suc.prems have "j < length (cur[c := prev ! c + d - 8])" by simp
    from Suc.IH [OF this, of "Suc c"] True Suc.prems show ?thesis
      by (cases "j = c") (auto simp: nth_list_update)
  next
    case False
    then show ?thesis by auto
  qed
qed

lemma decode_field_done:
  "\<not> cellCount < FIELD_NUM_CELLS \<Longrightarrow> decode_field numData pos prev cur cellCount = Inr (cur, pos)"
  by (subst decode_field.simps) simp

lemma decode_field_step:
  "cellCount < FIELD_NUM_CELLS \<Longrightarrow> poll numData pos 2 = Inr (v, pos') \<Longrightarrow>
   decode_field numData pos prev cur cellCount =
     decode_field numData pos' prev
       (fst (fill_cells cur prev (int (v div FIELD_NUM_CELLS)) (v mod FIELD_NUM_CELLS + 1) cellCount))
       (snd (fill_cells cur prev (int (v div FIELD_NUM_CELLS)) (v mod FIELD_NUM_CELLS + 1) cellCount))"
  by (subst decode_field.simps) (simp add: Let_def)

lemma decode_field_fail:
  "cellCount < FIELD_NUM_CELLS \<Longrightarrow> poll numData pos 2 = Inl e \<Longrightarrow>
   decode_field numData pos prev cur cellCount = Inl e"
  by (subst decode_field.simps) simp

lemma encode_field_loop_emit:
  "i < FIELD_NUM_CELLS \<Longrightarrow> i > 0 \<Longrightarrow> cur ! i - prev ! i + 8 \<noteq> ld \<Longrightarrow>
   encode_field_loop cur prev i dc ld result =
     encode_field_loop cur prev (Suc i) 1 (cur ! i - prev ! i + 8)
       (result @ unpoll (run_value ld dc) 2)"
  by (subst encode_field_loop.simps) (simp add: Let_def)

lemma encode_field_loop_extend:
  "i < FIELD_NUM_CELLS \<Longrightarrow> i = 0 \<or> cur ! i - prev ! i + 8 = ld \<Longrightarrow>
   encode_field_loop cur prev i dc ld result =
     encode_field_loop cur prev (Suc i) (dc + 1) (cur ! i - prev ! i + 8) result"
  by (subst encode_field_loop.simps) (auto simp: Let_def)

lemma encode_field_loop_last:
  "\<not> i < FIELD_NUM_CELLS \<Longrightarrow>
   encode_field_loop cur prev i dc ld result = result @ unpoll (run_value ld dc) 2"
  by (subst encode_field_loop.simps) simp

lemma encode_field_loop_result:
  "encode_field_loop cur prev i dc ld result = result @ encode_field_loop cur prev i dc ld []"
proof (induction "FIELD_NUM_CELLS - i" arbitrary: i dc ld result)
  case 0
  then show ?case
    by (simp add: encode_field_loop_last)
next
  case (Suc n)
  then have less: "i < FIELD_NUM_CELLS" and n: "n = FIELD_NUM_CELLS - Suc i"
    by simp_all
  show ?case
  proof (cases "i > 0 \<and> cur ! i - prev ! i + 8 \<noteq> ld")
    case True
    with less show ?thesis
      using Suc.hyps(1) [OF n, of 1 "cur ! i - prev ! i + 8" "result @ unpoll (run_value ld dc) 2"]
        Suc.hyps(1) [OF n, of 1 "cur ! i - prev ! i + 8" "unpoll (run_value ld dc) 2"]
      by (simp add: encode_field_loop_emit)
  next
    case False
    then have "i = 0 \<or> cur ! i - prev ! i + 8 = ld" by auto
    with less show ?thesis
      using Suc.hyps(1) [OF n, of "dc + 1" "cur ! i - prev ! i + 8" result]
      by (simp add: encode_field_loop_extend)
  qed
qed

lemma encode_field_loop_alphabet:
  "set result \<subseteq> set ENCODE_TABLE \<Longrightarrow>
   set (encode_field_loop cur prev i dc ld result) \<subseteq> set ENCODE_TABLE"
proof (induction "FIELD_NUM_CELLS - i" arbitrary: i dc ld result)
  case 0
  then show ?case
    using unpoll_alphabet by (simp add: encode_field_loop_last)
next
  case (Suc n)
  then have less: "i < FIELD_NUM_CELLS" and n: "n = FIELD_NUM_CELLS - Suc i"
    by simp_all
  show ?case
  proof (cases "i > 0 \<and> cur ! i - prev ! i + 8 \<noteq> ld")
    case True
    from Suc.prems unpoll_alphabet
    have "set (result @ unpoll (run_value ld dc) 2) \<subseteq> set ENCODE_TABLE"
      by simp
    from Suc.hyps(1) [OF n this] True less show ?thesis
      by (simp add: encode_field_loop_emit)
  next
    case False
    then have "i = 0 \<or> cur ! i - prev ! i + 8 = ld" by auto
    with less Suc.hyps(1) [OF n Suc.prems] show ?thesis
      by (simp add: encode_field_loop_extend)
  qed
qed

lemma diffs_fit_range:
  "diffs_fit prev cur \<Longrightarrow> j < FIELD_NUM_CELLS \<Longrightarrow>
   0 \<le> field_diff prev cur j \<and> field_diff prev cur j \<le> 17"
  by (simp add: diffs_fit_def list_all_iff)

lemma diffs_fit_run:
  assumes "diffs_fit prev cur" and "c + n \<le> FIELD_NUM_CELLS"
    and "\<forall>j. c \<le> j \<and> j < c + n \<longrightarrow> field_diff prev cur j = 17"
  shows "n \<le> 16"
proof (rule ccontr)
  assume "\<not> n \<le> 16"
  with assms(2) have "c < FIELD_NUM_CELLS - 16" and n: "17 \<le> n" by simp_all
  from assms(1) have "\<forall>i\<in>{0..<FIELD_NUM_CELLS - 16}. \<exists>k\<in>{0..<17}. field_diff prev cur (i + k) \<noteq> 17"
    by (simp add: diffs_fit_def list_all_iff list_ex_iff)
  with \<open>c < FIELD_NUM_CELLS - 16\<close> obtain k where "k < 17" "field_diff prev cur (c + k) \<noteq> 17"
    by fastforce
  with assms(3) n show False by simp
qed

lemma run_value_decompose:
  assumes "0 \<le> ld" "ld \<le> 17" "1 \<le> n" "n \<le> 240" "ld = 17 \<longrightarrow> n \<le> 16"
  shows "0 \<le> run_value ld (int n)"
    and "nat (run_value ld (int n)) mod 64 ^ 2 = nat (run_value ld (int n))"
    and "int (nat (run_value ld (int n)) div FIELD_NUM_CELLS) = ld"
    and "nat (run_value ld (int n)) mod FIELD_NUM_CELLS + 1 = n"
proof -
  obtain l where l: "ld = int l" "l \<le> 17"
    using assms(1,2) by (metis nat_le_iff nat_0_le numeral_Bit1 of_nat_numeral nat_numeral)
  obtain m where m: "n = Suc m" "m < 240"
    using assms(3,4) by (cases n) auto
  have v: "nat (run_value ld (int n)) = l * 240 + m"
    by (simp add: run_value_def N240 l m nat_add_distrib nat_mult_distrib)
  show "0 \<le> run_value ld (int n)"
    by (simp add: run_value_def N240 l m)
  have "l * 240 + m < 4096"
  proof (cases "l = 17")
    case True
    with assms(5) l m show ?thesis by simp
  next
    case False
    with l have "l \<le> 16" by simp
    then have "l * 240 \<le> 16 * 240" by (rule mult_le_mono1)
    with m show ?thesis by simp
  qed
  then show "nat (run_value ld (int n)) mod 64 ^ 2 = nat (run_value ld (int n))"
    by (simp add: v)
  show "int (nat (run_value ld (int n)) div FIELD_NUM_CELLS) = ld"
    unfolding v N240 using m l by simp
  show "nat (run_value ld (int n)) mod FIELD_NUM_CELLS + 1 = n"
    unfolding v N240 using m by simp
qed

lemma decode_field_run:
  assumes "c < FIELD_NUM_CELLS" "0 \<le> ld" "ld \<le> 17" "1 \<le> n" "c + n \<le> FIELD_NUM_CELLS"
    "ld = 17 \<longrightarrow> n \<le> 16"
  shows "decode_field (pre @ map digit_of (unpoll (run_value ld (int n)) 2) @ rest) (length pre) prev fld c =
    decode_field (pre @ map digit_of (unpoll (run_value ld (int n)) 2) @ rest) (length pre + 2) prev
      (fst (fill_cells fld prev ld n c)) (c + n)"
proof -
  from assms have n: "n \<le> 240" by (simp add: N240)
  note rv = run_value_decompose [OF assms(2,3,4) n assms(6)]
  have "poll (pre @ map digit_of (unpoll (run_value ld (int n)) 2) @ rest) (length pre) 2 =
    Inr (nat (run_value ld (int n)), length pre + 2)"
    using poll_digits64 [of pre "nat (run_value ld (int n))" 2 rest] rv(1,2)
    by (simp add: digit_of_unpoll)
  from decode_field_step [OF assms(1) this, of prev fld]
  have "decode_field (pre @ map digit_of (unpoll (run_value ld (int n)) 2) @ rest) (length pre) prev fld c =
    decode_field (pre @ map digit_of (unpoll (run_value ld (int n)) 2) @ rest) (length pre + 2) prev
      (fst (fill_cells fld prev ld n c)) (snd (fill_cells fld prev ld n c))"
    by (simp only: rv(3,4))
  moreover from assms(1,5) have "snd (fill_cells fld prev ld n c) = c + n"
    by (simp add: fill_cells_count)
  ultimately show ?thesis by simp
qed

lemma fill_cells_run:
  assumes "length fld = FIELD_NUM_CELLS" "n \<le> i" "i \<le> FIELD_NUM_CELLS"
    and "\<forall>j. i - n \<le> j \<and> j < i \<longrightarrow> field_diff prev cur j = ld"
    and "\<forall>j<i - n. fld ! j = cur ! j"
  shows "length (fst (fill_cells fld prev ld n (i - n))) = FIELD_NUM_CELLS"
    and "\<forall>j<i. fst (fill_cells fld prev ld n (i - n)) ! j = cur ! j"
proof -
  show "length (fst (fill_cells fld prev ld n (i - n))) = FIELD_NUM_CELLS"
    by (simp add: fill_cells_length assms(1))
  show "\<forall>j<i. fst (fill_cells fld prev ld n (i - n)) ! j = cur ! j"
  proof (intro allI impI)
    fix j assume j: "j < i"
    with assms(1,3) have "j < length fld" by simp
    note nth = fill_cells_nth [OF this, of prev ld n "i - n"]
    show "fst (fill_cells fld prev ld n (i - n)) ! j = cur ! j"
    proof (cases "i - n \<le> j")
      case True
      with j assms(4) have "field_diff prev cur j = ld" by simp
      then have "prev ! j + ld - 8 = cur ! j" by (simp add: field_diff_def)
      with True j assms(2,3) nth show ?thesis by simp
    next
      case False
      with assms(5) nth show ?thesis by simp
    qed
  qed
qed

lemma field_roundtrip_aux:
  assumes len: "length cur = FIELD_NUM_CELLS" and fit: "diffs_fit prev cur"
  shows "1 \<le> n \<Longrightarrow> n \<le> i \<Longrightarrow> i \<le> FIELD_NUM_CELLS \<Longrightarrow>
    \<forall>j. i - n \<le> j \<and> j < i \<longrightarrow> field_diff prev cur j = ld \<Longrightarrow>
    length fld = FIELD_NUM_CELLS \<Longrightarrow> \<forall>j<i - n. fld ! j = cur ! j \<Longrightarrow>
    decode_field (pre @ map digit_of (encode_field_loop cur prev i (int n) ld []) @ post)
      (length pre) prev fld (i - n) =
    Inr (cur, length pre + length (encode_field_loop cur prev i (int n) ld []))"
proof (induction "FIELD_NUM_CELLS - i" arbitrary: i n ld fld pre)
  case 0
  then have i: "i = FIELD_NUM_CELLS" by simp
  from "0.prems" have c: "i - n < FIELD_NUM_CELLS" and cn: "i - n + n \<le> FIELD_NUM_CELLS"
    by simp_all
  from "0.prems" have "field_diff prev cur (i - n) = ld" by simp
  with diffs_fit_range [OF fit c] have ld: "0 \<le> ld" "ld \<le> 17" by simp_all
  have short: "ld = 17 \<longrightarrow> n \<le> 16"
    using diffs_fit_run [OF fit cn] "0.prems" by auto
  note filled = fill_cells_run [OF "0.prems"(5,2,3,4,6)]
  have "fst (fill_cells fld prev ld n (i - n)) = cur"
    using filled by (simp add: list_eq_iff_nth_eq len i)
  moreover from "0.prems" have "n \<le> 240" by (simp add: N240)
  note run_value_decompose(1) [OF ld "0.prems"(1) this short]
  ultimately show ?case
    using decode_field_run [OF c ld "0.prems"(1) cn short, of pre "post" prev fld] "0.prems"(2)
    by (simp add: encode_field_loop_last i decode_field_done length_unpoll)
next
  case (Suc k)
  then have less: "i < FIELD_NUM_CELLS" and k: "k = FIELD_NUM_CELLS - Suc i"
    by simp_all
  define d where "d = cur ! i - prev ! i + 8"
  have d: "field_diff prev cur i = d" by (simp add: d_def field_diff_def)
  from Suc.prems have c: "i - n < FIELD_NUM_CELLS" and cn: "i - n + n \<le> FIELD_NUM_CELLS"
    and pos: "0 < i"
    by simp_all
  show ?case
  proof (cases "d = ld")
    case True
    have "decode_field
      (pre @ map digit_of (encode_field_loop cur prev (Suc i) (int (Suc n)) ld []) @ post)
      (length pre) prev fld (Suc i - Suc n) =
      Inr (cur, length pre + length (encode_field_loop cur prev (Suc i) (int (Suc n)) ld []))"
    proof (rule Suc.hyps(1) [OF k])
      show "\<forall>j. Suc i - Suc n \<le> j \<and> j < Suc i \<longrightarrow> field_diff prev cur j = ld"
        using Suc.prems(4) d True by (auto simp: less_Suc_eq)
    qed (use Suc.prems less in simp_all)
    moreover have "encode_field_loop cur prev i (int n) ld [] =
      encode_field_loop cur prev (Suc i) (int (Suc n)) ld []"
      using less True by (simp add: encode_field_loop_extend d_def add.commute)
    ultimately show ?thesis by simp
  next
    case False
    from Suc.prems have "field_diff prev cur (i - n) = ld" by simp
    with diffs_fit_range [OF fit c] have ld: "0 \<le> ld" "ld \<le> 17" by simp_all
    have short: "ld = 17 \<longrightarrow> n \<le> 16"
      using diffs_fit_run [OF fit cn] Suc.prems by auto
    note filled = fill_cells_run [OF Suc.prems(5,2,3,4,6)]
    define u where "u = unpoll (run_value ld (int n)) 2"
    define E where "E = encode_field_loop cur prev (Suc i) (int 1) d []"
    have "encode_field_loop cur prev i (int n) ld [] = encode_field_loop cur prev (Suc i) 1 d u"
      using less pos False
      by (simp add: encode_field_loop_emit d_def [symmetric] u_def)
    also have "\<dots> = u @ E"
      unfolding E_def by (simp add: encode_field_loop_result [of cur prev "Suc i" 1 d u])
    finally have enc: "encode_field_loop cur prev i (int n) ld [] = u @ E" .
    from Suc.prems have "n \<le> 240" by (simp add: N240)
    from run_value_decompose(1) [OF ld Suc.prems(1) this short]
    have lu: "length u = 2" by (simp add: u_def length_unpoll)
    have "decode_field ((pre @ map digit_of u) @ map digit_of E @ post)
      (length (pre @ map digit_of u)) prev (fst (fill_cells fld prev ld n (i - n))) (Suc i - 1) =
      Inr (cur, length (pre @ map digit_of u) + length E)"
      unfolding E_def
    proof (rule Suc.hyps(1) [OF k])
      show "\<forall>j. Suc i - 1 \<le> j \<and> j < Suc i \<longrightarrow> field_diff prev cur j = d"
        using d by (auto simp: less_Suc_eq)
      show "\<forall>j<Suc i - 1. fst (fill_cells fld prev ld n (i - n)) ! j = cur ! j"
        using filled(2) by simp
    qed (use less filled(1) in simp_all)
    then show ?thesis
      using decode_field_run [OF c ld Suc.prems(1) cn short, of pre "map digit_of E @ post" prev fld]
        Suc.prems(2)
      by (simp add: enc lu u_def [symmetric])
  qed
qed

lemma field_roundtrip:
  assumes "length cur = FIELD_NUM_CELLS" "diffs_fit prev cur" "length fld = FIELD_NUM_CELLS"
  shows "decode_field (pre @ map digit_of (encode_field_loop cur prev 0 0 0 []) @ post)
      (length pre) prev fld 0 =
    Inr (cur, length pre + length (encode_field_loop cur prev 0 0 0 []))"
proof -
  have "encode_field_loop cur prev 0 0 0 [] =
    encode_field_loop cur prev (Suc 0) (int 1) (cur ! 0 - prev ! 0 + 8) []"
    by (simp add: encode_field_loop_extend N240)
  moreover have "decode_field
    (pre @ map digit_of (encode_field_loop cur prev (Suc 0) (int 1) (cur ! 0 - prev ! 0 + 8) []) @ post)
      (length pre) prev fld (Suc 0 - 1) =
    Inr (cur, length pre + length (encode_field_loop cur prev (Suc 0) (int 1) (cur ! 0 - prev ! 0 + 8) []))"
    by (rule field_roundtrip_aux [OF assms(1,2)]) (simp_all add: assms(3) N240 field_diff_def)
  ultimately show ?thesis by simp
qed

subsection \<open>The packed descriptor\<close>

lemma pack_descriptor_nat:
  assumes "type (piece p) = int t" "rotation (piece p) = int r" "location (piece p) = int l"
  shows "pack_descriptor p hc =
    int (t + 8 * (r + 4 * (l + 240 * (bit_of (raise (flags p)) + 2 * (bit_of (mirror (flags p)) +
      2 * (bit_of (color (flags p)) + 2 * (bit_of hc + 2 * bit_of (\<not> lock (flags p)))))))))"
  using assms by (simp add: pack_descriptor_def N240 bit_of_def)

lemma radix_split: "a < b \<Longrightarrow> (a + b * x) mod b = a \<and> (a + b * x) div b = (x::nat)"
  by simp

lemma unpack_descriptor_nat:
  assumes "t < 8" "r < 4" "l < 240"
  shows "unpack_descriptor
    (t + 8 * (r + 4 * (l + 240 * (bit_of ra + 2 * (bit_of mi + 2 * (bit_of co + 2 * (bit_of hc + 2 * bit_of (\<not> lo)))))))) q =
    (q\<lparr>piece := \<lparr>type = int t, rotation = int r, location = int l\<rparr>,
       flags := (flags q)\<lparr>raise := ra, mirror := mi, color := co, lock := lo\<rparr>\<rparr>, hc)"
proof -
  define x5 where "x5 = bit_of hc + 2 * bit_of (\<not> lo)"
  define x4 where "x4 = bit_of co + 2 * x5"
  define x3 where "x3 = bit_of mi + 2 * x4"
  define x2 where "x2 = bit_of ra + 2 * x3"
  define x1 where "x1 = l + 240 * x2"
  define x0 where "x0 = r + 4 * x1"
  have b: "bit_of c < 2" "bit_of c \<noteq> 0 \<longleftrightarrow> c" "bit_of c mod 2 = bit_of c" for c
    by (simp_all add: bit_of_def)
  have steps:
    "(t + 8 * x0) mod 8 = t" "(t + 8 * x0) div 8 = x0"
    "x0 mod 4 = r" "x0 div 4 = x1"
    "x1 mod 240 = l" "x1 div 240 = x2"
    "x2 mod 2 = bit_of ra" "x2 div 2 = x3"
    "x3 mod 2 = bit_of mi" "x3 div 2 = x4"
    "x4 mod 2 = bit_of co" "x4 div 2 = x5"
    "x5 mod 2 = bit_of hc" "x5 div 2 = bit_of (\<not> lo)"
    unfolding x0_def x1_def x2_def x3_def x4_def x5_def
    using assms b(1) by (simp_all only: radix_split)
  have "unpack_descriptor (t + 8 * x0) q =
    (q\<lparr>piece := \<lparr>type = int t, rotation = int r, location = int l\<rparr>,
       flags := (flags q)\<lparr>raise := ra, mirror := mi, color := co, lock := lo\<rparr>\<rparr>, hc)"
    unfolding unpack_descriptor_def Let_def N240 steps b(3)
    by (simp add: b(2)) (simp add: bit_of_def)
  then show ?thesis
    unfolding x0_def x1_def x2_def x3_def x4_def x5_def .
qed

lemma packed_bound:
  assumes "t < 8" "r < 4" "l < 240"
  shows "t + 8 * (r + 4 * (l + 240 * (bit_of ra + 2 * (bit_of mi + 2 * (bit_of co + 2 * (bit_of hc + 2 * bit_of lo)))))) < 64 ^ 3"
proof -
  have "bit_of ra \<le> 1" "bit_of mi \<le> 1" "bit_of co \<le> 1" "bit_of hc \<le> 1" "bit_of lo \<le> 1"
    by (simp_all add: bit_of_def)
  with assms show ?thesis by simp
qed

subsection \<open>The comment block\<close>

lemma hex_digit_printable: "d < 16 \<Longrightarrow> 32 \<le> hex_digit d \<and> hex_digit d < 128"
  by (simp add: hex_digit_def)

lemma percentEncode_char_printable:
  assumes "c \<le> 255"
  shows "printable (percentEncode_char [c])"
proof -
  from assms have "c div 16 < 16" "c mod 16 < 16" by simp_all
  then show ?thesis
    using hex_digit_printable [of "c div 16"] hex_digit_printable [of "c mod 16"]
    by (auto simp: percentEncode_char_byte [OF assms] printable_def unreserved_def)
qed

lemma printable_append [simp]: "printable (a @ b) \<longleftrightarrow> printable a \<and> printable b"
  by (simp add: printable_def)

lemma percentEncode_printable:
  assumes "\<forall>c\<in>set s. c \<le> 255"
  shows "printable (percentEncode s)"
proof -
  from assms have "\<forall>c\<in>set s. c < 55296" by auto
  then have "percentEncode s = concat (map (\<lambda>c. percentEncode_char [c]) s)"
    by (simp add: percentEncode_def codePoints_single comp_def)
  moreover from assms have "printable (concat (map (\<lambda>c. percentEncode_char [c]) s))"
    by (induction s) (simp_all add: percentEncode_char_printable, simp add: printable_def)
  ultimately show ?thesis by simp
qed

lemma chunk_at_printable:
  "printable s \<Longrightarrow> 32 \<le> chunk_at s i j \<and> chunk_at s i j < 128"
  by (auto simp: chunk_at_def printable_def list_all_length)

lemma four: "(4::nat) = Suc (Suc (Suc (Suc 0)))"
  by simp

lemma chunk_loop_value:
  "chunk_loop s i 4 0 0 1 =
     (int (chunk_at s i 0) - 32) + 96 * ((int (chunk_at s i 1) - 32) +
       96 * ((int (chunk_at s i 2) - 32) + 96 * (int (chunk_at s i 3) - 32)))"
  unfolding four chunk_loop.simps Let_def chunk_at_def [symmetric]
  by (simp add: numeral_2_eq_2 numeral_3_eq_3)

lemma chunk_chars_value:
  assumes "a < 96" "b < 96" "c < 96" "d < 96"
  shows "chunk_chars 4 (a + 96 * (b + 96 * (c + 96 * d))) = [a + 32, b + 32, c + 32, d + 32]"
proof -
  define x2 where "x2 = c + 96 * d"
  define x1 where "x1 = b + 96 * x2"
  have steps: "(a + 96 * x1) mod 96 = a" "(a + 96 * x1) div 96 = x1"
    "x1 mod 96 = b" "x1 div 96 = x2" "x2 mod 96 = c" "x2 div 96 = d" "d mod 96 = d"
    unfolding x1_def x2_def using assms by (simp_all only: radix_split mod_less)
  have "chunk_chars 4 (a + 96 * x1) = [a + 32, b + 32, c + 32, d + 32]"
    unfolding four chunk_chars.simps steps fromCharCode_def
    using assms by simp
  then show ?thesis unfolding x1_def x2_def .
qed

lemma encode_chunks_done:
  "\<not> i < length s \<Longrightarrow> encode_chunks s i result = result"
  by (subst encode_chunks.simps) simp

lemma encode_chunks_step:
  "i < length s \<Longrightarrow> encode_chunks s i result =
     encode_chunks s (i + 4) (result @ unpoll (chunk_loop s i 4 0 0 1) 5)"
  by (subst encode_chunks.simps) simp

lemma encode_chunks_result:
  "encode_chunks s i result = result @ encode_chunks s i []"
proof (induction "length s - i" arbitrary: i result rule: less_induct)
  case less
  show ?case
  proof (cases "i < length s")
    case True
    then have "length s - (i + 4) < length s - i" by simp
    from less [OF this, of "result @ unpoll (chunk_loop s i 4 0 0 1) 5"]
      less [OF this, of "unpoll (chunk_loop s i 4 0 0 1) 5"] True
    show ?thesis by (simp add: encode_chunks_step)
  next
    case False
    then show ?thesis by (simp add: encode_chunks_done)
  qed
qed

lemma encode_chunks_alphabet:
  "set result \<subseteq> set ENCODE_TABLE \<Longrightarrow> set (encode_chunks s i result) \<subseteq> set ENCODE_TABLE"
proof (induction "length s - i" arbitrary: i result rule: less_induct)
  case less
  show ?case
  proof (cases "i < length s")
    case True
    then have "length s - (i + 4) < length s - i" by simp
    moreover from less.prems unpoll_alphabet
    have "set (result @ unpoll (chunk_loop s i 4 0 0 1) 5) \<subseteq> set ENCODE_TABLE" by simp
    ultimately show ?thesis
      using less.hyps True by (simp add: encode_chunks_step)
  next
    case False
    with less.prems show ?thesis by (simp add: encode_chunks_done)
  qed
qed

text \<open>The value of a chunk of printable characters and the characters read back from it.\<close>

lemma chunk_value_roundtrip:
  assumes "printable s"
  obtains w where "chunk_loop s i 4 0 0 1 = int w" "w < 64 ^ 5"
    "chunk_chars 4 w = [chunk_at s i 0, chunk_at s i 1, chunk_at s i 2, chunk_at s i 3]"
proof -
  define a where "a j = chunk_at s i j - 32" for j
  have a: "a j < 96" "chunk_at s i j = a j + 32" "int (chunk_at s i j) - 32 = int (a j)" for j
    using chunk_at_printable [OF assms, of i j] by (auto simp: a_def)
  define w where "w = a 0 + 96 * (a 1 + 96 * (a 2 + 96 * a 3))"
  have "chunk_loop s i 4 0 0 1 = int w"
    by (simp add: chunk_loop_value a(3) w_def)
  moreover have "w < 64 ^ 5"
    using a(1) [of 0] a(1) [of 1] a(1) [of 2] a(1) [of 3] by (simp add: w_def)
  moreover have "chunk_chars 4 w = [chunk_at s i 0, chunk_at s i 1, chunk_at s i 2, chunk_at s i 3]"
    unfolding w_def by (simp only: chunk_chars_value [OF a(1) a(1) a(1) a(1)] a(2))
  ultimately show ?thesis by (rule that)
qed

lemma chunk_at_drop:
  assumes "i < length s"
  shows "[chunk_at s i 0, chunk_at s i 1, chunk_at s i 2, chunk_at s i 3] @ drop (i + 4) s =
    drop i s @ replicate (i + 4 - length s) 32"
proof (rule nth_equalityI)
  show "length ([chunk_at s i 0, chunk_at s i 1, chunk_at s i 2, chunk_at s i 3] @ drop (i + 4) s) =
    length (drop i s @ replicate (i + 4 - length s) 32)"
    using assms by simp
next
  fix k
  assume "k < length ([chunk_at s i 0, chunk_at s i 1, chunk_at s i 2, chunk_at s i 3] @ drop (i + 4) s)"
  then have k: "k < 4 + (length s - (i + 4))" by simp
  show "([chunk_at s i 0, chunk_at s i 1, chunk_at s i 2, chunk_at s i 3] @ drop (i + 4) s) ! k =
    (drop i s @ replicate (i + 4 - length s) 32) ! k"
  proof (cases "k < 4")
    case True
    then consider "k = 0" | "k = 1" | "k = 2" | "k = 3" by linarith
    then show ?thesis
      using assms by cases (auto simp: chunk_at_def nth_append)
  next
    case False
    with k have "i + k < length s" by simp
    with False assms show ?thesis
      by (simp add: nth_append add.commute add.left_commute)
  qed
qed

lemma chunk_count: "i < L \<Longrightarrow> (L - i + 3) div 4 = Suc ((L - (i + 4) + 3) div 4)" for i L :: nat
proof (cases "i + 4 \<le> L")
  case True
  then have "L - i + 3 = (L - (i + 4) + 3) + 4" by simp
  then show ?thesis by (simp only: div_add_self2)
next
  case False
  assume "i < L"
  with False have "L - (i + 4) = 0" "4 \<le> L - i + 3" "L - i + 3 < 8" by simp_all
  moreover from this have "(L - i + 3) div 4 = 1"
    by (intro div_nat_eqI) simp_all
  ultimately show ?thesis by simp
qed

lemma chunks_roundtrip:
  assumes "printable s"
  shows "\<exists>pad. decode_chunks (pre @ map digit_of (encode_chunks s i []) @ post) (length pre)
      ((length s - i + 3) div 4) acc =
    Inr (acc @ drop i s @ pad, length pre + length (encode_chunks s i []))"
proof (induction "length s - i" arbitrary: i acc pre rule: less_induct)
  case less
  show ?case
  proof (cases "i < length s")
    case False
    then show ?thesis by (simp add: encode_chunks_done)
  next
    case True
    obtain w where w: "chunk_loop s i 4 0 0 1 = int w" "w < 64 ^ 5"
      "chunk_chars 4 w = [chunk_at s i 0, chunk_at s i 1, chunk_at s i 2, chunk_at s i 3]"
      using chunk_value_roundtrip [OF assms] by blast
    define cs where "cs = [chunk_at s i 0, chunk_at s i 1, chunk_at s i 2, chunk_at s i 3]"
    define u where "u = unpoll (int w) 5"
    define E where "E = encode_chunks s (i + 4) []"
    define n where "n = (length s - (i + 4) + 3) div 4"
    have u: "map digit_of u = digits64 w 5" "length u = 5"
      by (simp_all add: u_def digit_of_unpoll length_unpoll)
    have enc: "encode_chunks s i [] = u @ E"
      using True by (simp add: encode_chunks_step w(1) u_def E_def encode_chunks_result [of s "i + 4" "unpoll (int w) 5"])
    have count: "(length s - i + 3) div 4 = Suc n"
      using True unfolding n_def by (rule chunk_count)
    have "poll (pre @ digits64 w 5 @ map digit_of E @ post) (length pre) 5 = Inr (w, length pre + 5)"
      using poll_digits64 [of pre w 5 "map digit_of E @ post"] w(2) by simp
    then have step: "decode_chunks (pre @ map digit_of (u @ E) @ post) (length pre) (Suc n) acc =
      decode_chunks ((pre @ map digit_of u) @ map digit_of E @ post) (length (pre @ map digit_of u)) n (acc @ cs)"
      by (simp add: u w(3) cs_def)
    from True have "length s - (i + 4) < length s - i" by simp
    from less [OF this, of "pre @ map digit_of u" "acc @ cs"]
    obtain pad where "decode_chunks ((pre @ map digit_of u) @ map digit_of E @ post)
        (length (pre @ map digit_of u)) n (acc @ cs) =
      Inr ((acc @ cs) @ drop (i + 4) s @ pad, length (pre @ map digit_of u) + length E)"
      unfolding E_def n_def by blast
    moreover have "(acc @ cs) @ drop (i + 4) s @ pad =
      acc @ drop i s @ (replicate (i + 4 - length s) 32 @ pad)"
      using chunk_at_drop [OF True] unfolding cs_def by (metis append.assoc)
    ultimately have "decode_chunks (pre @ map digit_of (u @ E) @ post) (length pre) (Suc n) acc =
      Inr (acc @ drop i s @ (replicate (i + 4 - length s) 32 @ pad), length pre + length (u @ E))"
      using step by (simp add: u(2))
    then show ?thesis
      unfolding enc count by blast
  qed
qed

lemma comment_roundtrip:
  assumes "printable s" "length s \<le> 4095"
  shows "decode_comment
      (pre @ map digit_of (encode_chunks s 0 (unpoll (int (length s)) 2)) @ post) (length pre) =
    Inr (percentDecode s, length pre + length (encode_chunks s 0 (unpoll (int (length s)) 2)))"
proof -
  define u where "u = unpoll (int (length s)) 2"
  define E where "E = encode_chunks s 0 []"
  have u: "map digit_of u = digits64 (length s) 2" "length u = 2"
    by (simp_all add: u_def digit_of_unpoll length_unpoll)
  have enc: "encode_chunks s 0 u = u @ E"
    unfolding E_def by (rule encode_chunks_result)
  have "poll (pre @ digits64 (length s) 2 @ map digit_of E @ post) (length pre) 2 =
    Inr (length s, length pre + 2)"
    using poll_digits64 [of pre "length s" 2 "map digit_of E @ post"] assms(2) by simp
  moreover obtain pad where "decode_chunks ((pre @ map digit_of u) @ map digit_of E @ post)
      (length (pre @ map digit_of u)) ((length s - 0 + 3) div 4) [] =
    Inr ([] @ drop 0 s @ pad, length (pre @ map digit_of u) + length E)"
    using chunks_roundtrip [OF assms(1), of "pre @ map digit_of u" 0 "post" "[]"]
    unfolding E_def by blast
  ultimately have "decode_comment (pre @ map digit_of (u @ E) @ post) (length pre) =
    Inr (percentDecode s, length pre + length (u @ E))"
    by (simp add: decode_comment_def u Let_def)
  from this [folded enc] show ?thesis
    unfolding u_def .
qed

subsection \<open>Pages and the page loop\<close>

lemma encode_page_parts:
  "encode_page prevPage p result =
     result @ encode_field_loop (field p) (field prevPage) 0 0 0 [] @
       unpoll (pack_descriptor p (comment (flags p) \<noteq> [])) 3 @ encode_comment p"
proof -
  have "encode_chunks s 0 (r @ u) = r @ encode_chunks s 0 u" for s r u
    using encode_chunks_result [of s 0 "r @ u"] encode_chunks_result [of s 0 u] by simp
  then show ?thesis
    using encode_field_loop_result [of "field p" "field prevPage" 0 0 0 result]
    by (simp add: encode_page_def encode_comment_def Let_def)
qed

lemma encode_comment_alphabet: "set (encode_comment p) \<subseteq> set ENCODE_TABLE"
  using encode_chunks_alphabet unpoll_alphabet by (simp add: encode_comment_def)

lemma encode_page_alphabet: "set (encode_page prevPage p []) \<subseteq> set ENCODE_TABLE"
  using encode_field_loop_alphabet [of "[]"] unpoll_alphabet encode_comment_alphabet
  by (simp add: encode_page_parts)

lemma descriptor_roundtrip:
  assumes "0 \<le> type (piece p)" "type (piece p) < 8" "0 \<le> rotation (piece p)"
    "rotation (piece p) < 4" "0 \<le> location (piece p)" "location (piece p) < 240"
  shows "0 \<le> pack_descriptor p hc"
    and "nat (pack_descriptor p hc) mod 64 ^ 3 = nat (pack_descriptor p hc)"
    and "unpack_descriptor (nat (pack_descriptor p hc)) q =
      (q\<lparr>piece := piece p,
         flags := (flags q)\<lparr>raise := raise (flags p), mirror := mirror (flags p),
           color := color (flags p), lock := lock (flags p)\<rparr>\<rparr>, hc)"
proof -
  obtain t r l where trl: "type (piece p) = int t" "rotation (piece p) = int r"
    "location (piece p) = int l"
    using assms(1,3,5) by (metis nat_0_le)
  with assms have less: "t < 8" "r < 4" "l < 240" by simp_all
  note packed = pack_descriptor_nat [OF trl, of hc]
  show "0 \<le> pack_descriptor p hc"
    unfolding packed by simp
  show "nat (pack_descriptor p hc) mod 64 ^ 3 = nat (pack_descriptor p hc)"
    unfolding packed nat_int using packed_bound [OF less] by (rule mod_less)
  have "piece p = \<lparr>type = int t, rotation = int r, location = int l\<rparr>"
    using trl by (cases "piece p") simp
  then show "unpack_descriptor (nat (pack_descriptor p hc)) q =
      (q\<lparr>piece := piece p,
         flags := (flags q)\<lparr>raise := raise (flags p), mirror := mirror (flags p),
           color := color (flags p), lock := lock (flags p)\<rparr>\<rparr>, hc)"
    unfolding packed nat_int
    using unpack_descriptor_nat [OF less, of "raise (flags p)" "mirror (flags p)"
        "color (flags p)" hc "lock (flags p)" q]
    by simp
qed

text \<open>
  One page written by \<open>encode_page\<close> and read by \<open>decode_page\<close>: everything comes back
  as it was, the comment after a pass through \<open>percentEncode\<close> and \<open>percentDecode\<close>.
\<close>

lemma page_decode:
  assumes fit: "length (field p) = FIELD_NUM_CELLS" "diffs_fit (field prevPage) (field p)"
    and ranges: "0 \<le> type (piece p)" "type (piece p) < 8" "0 \<le> rotation (piece p)"
      "rotation (piece p) < 4" "0 \<le> location (piece p)" "location (piece p) < 240"
    and esc: "printable (percentEncode (comment (flags p)))"
    and short: "length (percentEncode (comment (flags p))) \<le> 4095"
  shows "decode_page (pre @ map digit_of (encode_page prevPage p []) @ post) prevPage (length pre) =
    Inr (p\<lparr>flags := (flags p)\<lparr>comment := percentDecode (percentEncode (comment (flags p)))\<rparr>\<rparr>,
      length pre + length (encode_page prevPage p []))"
proof -
  define F where "F = encode_field_loop (field p) (field prevPage) 0 0 0 []"
  define hc where "hc \<longleftrightarrow> comment (flags p) \<noteq> []"
  define D where "D = unpoll (pack_descriptor p hc) 3"
  define C where "C = encode_comment p"
  define data where "data = pre @ map digit_of (encode_page prevPage p []) @ post"
  have enc: "encode_page prevPage p [] = F @ D @ C"
    using encode_page_parts [of prevPage p "[]"] by (simp add: F_def D_def C_def hc_def)
  note desc = descriptor_roundtrip [OF ranges, of hc]
  have D: "map digit_of D = digits64 (nat (pack_descriptor p hc)) 3" "length D = 3"
    using desc(1) by (simp_all add: D_def digit_of_unpoll length_unpoll)
  have field: "decode_field data (length pre) (field prevPage) (field new_FumenPage) 0 =
    Inr (field p, length pre + length F)"
    using field_roundtrip [OF fit, of "field new_FumenPage" pre "map digit_of (D @ C) @ post"]
    by (simp add: data_def enc F_def new_FumenPage_def)
  define v where "v = nat (pack_descriptor p hc)"
  have poll: "poll data (length pre + length F) 3 = Inr (v, length pre + length F + 3)"
    using poll_digits64 [of "pre @ map digit_of F" "nat (pack_descriptor p hc)" 3 "map digit_of C @ post"]
      desc(2)
    by (simp add: data_def enc D v_def)
  define q where "q = new_FumenPage\<lparr>field := field p\<rparr>"
  have unpack: "unpack_descriptor v q =
    (q\<lparr>piece := piece p,
       flags := (flags q)\<lparr>raise := raise (flags p), mirror := mirror (flags p),
         color := color (flags p), lock := lock (flags p)\<rparr>\<rparr>, hc)"
    unfolding v_def by (rule desc(3))
  define s where "s = percentEncode (comment (flags p))"
  show ?thesis
  proof (cases hc)
    case False
    then have empty: "comment (flags p) = []" by (simp add: hc_def)
    then have "C = []" and p: "q\<lparr>piece := piece p,
       flags := (flags q)\<lparr>raise := raise (flags p), mirror := mirror (flags p),
         color := color (flags p), lock := lock (flags p)\<rparr>\<rparr> =
       p\<lparr>flags := (flags p)\<lparr>comment := percentDecode s\<rparr>\<rparr>"
      by (simp_all add: C_def encode_comment_def q_def new_FumenPage_def new_Flags_def s_def
          percentEncode_def)
    have "decode_page data prevPage (length pre) =
      Inr (p\<lparr>flags := (flags p)\<lparr>comment := percentDecode s\<rparr>\<rparr>, length pre + length F + 3)"
      unfolding decode_page_def field using False
      by (simp add: poll q_def [symmetric] unpack p Let_def)
    then show ?thesis
      by (simp add: data_def enc D \<open>C = []\<close> s_def)
  next
    case True
    then have ne: "comment (flags p) \<noteq> []" by (simp add: hc_def)
    have C': "C = encode_chunks s 0 (unpoll (int (length s)) 2)"
      using ne by (simp add: C_def encode_comment_def s_def)
    have "decode_comment ((pre @ map digit_of (F @ D)) @ map digit_of C @ post)
        (length (pre @ map digit_of (F @ D))) =
      Inr (percentDecode s, length (pre @ map digit_of (F @ D)) + length C)"
      unfolding C'
      by (rule comment_roundtrip) (use short esc in \<open>simp_all add: s_def\<close>)
    then have comment: "decode_comment data (length pre + length F + 3) =
      Inr (percentDecode s, length pre + length F + 3 + length C)"
      by (simp add: data_def enc D add.assoc)
    have p: "q\<lparr>piece := piece p,
       flags := (flags q)\<lparr>raise := raise (flags p), mirror := mirror (flags p),
         color := color (flags p), lock := lock (flags p), comment := percentDecode s\<rparr>\<rparr> =
       p\<lparr>flags := (flags p)\<lparr>comment := percentDecode s\<rparr>\<rparr>"
      by (simp add: q_def new_FumenPage_def new_Flags_def)
    have "decode_page data prevPage (length pre) =
      Inr (p\<lparr>flags := (flags p)\<lparr>comment := percentDecode s\<rparr>\<rparr>,
        length pre + length F + 3 + length C)"
      unfolding decode_page_def field using True
      by (simp add: poll q_def [symmetric] unpack comment p Let_def)
    then show ?thesis
      by (simp add: data_def enc D s_def)
  qed
qed

lemma page_roundtrip:
  assumes "page_fits prevPage p"
  shows "decode_page (pre @ map digit_of (encode_page prevPage p []) @ post) prevPage (length pre) =
    Inr (p, length pre + length (encode_page prevPage p []))"
proof -
  from assms have fit: "length (field p) = FIELD_NUM_CELLS" "diffs_fit (field prevPage) (field p)"
    and ranges: "0 \<le> type (piece p)" "type (piece p) < 8" "0 \<le> rotation (piece p)"
      "rotation (piece p) < 4" "0 \<le> location (piece p)" "location (piece p) < 240"
    and bytes: "\<forall>c\<in>set (comment (flags p)). c \<le> 255"
    and short: "length (percentEncode (comment (flags p))) \<le> 4095"
    by (simp_all add: page_fits_def list_all_iff)
  from page_decode [OF fit ranges percentEncode_printable [OF bytes] short, of pre "post"]
  show ?thesis
    by (simp add: percentDecode_percentEncode [OF bytes])
qed

lemma encode_loop_result:
  "encode_loop prevPage pages result = result @ encode_loop prevPage pages []"
proof (induction pages arbitrary: prevPage result)
  case Nil
  show ?case by simp
next
  case (Cons p pages)
  from Cons [of p "encode_page prevPage p result"] Cons [of p "encode_page prevPage p []"]
  show ?case
    by (simp add: encode_page_parts [of prevPage p result] encode_page_parts [of prevPage p "[]"])
qed

lemma encode_loop_alphabet: "set (encode_loop prevPage pages []) \<subseteq> set ENCODE_TABLE"
proof (induction pages arbitrary: prevPage)
  case Nil
  show ?case by simp
next
  case (Cons p pages)
  from Cons [of p] encode_page_alphabet [of prevPage p] show ?case
    by (simp add: encode_loop_result [of p pages "encode_page prevPage p []"])
qed

lemma decode_loop_done:
  "\<not> pos < length numData \<Longrightarrow> decode_loop numData prevPage pos pages = Inr pages"
  by (subst decode_loop.simps) simp

lemma decode_loop_step:
  "pos < length numData \<Longrightarrow> decode_page numData prevPage pos = Inr (p, pos') \<Longrightarrow>
   decode_loop numData prevPage pos pages = decode_loop numData p pos' (pages @ [p])"
  by (subst decode_loop.simps) simp

lemma decode_loop_fail:
  "pos < length numData \<Longrightarrow> decode_page numData prevPage pos = Inl e \<Longrightarrow>
   decode_loop numData prevPage pos pages = Inl e"
  by (subst decode_loop.simps) simp

lemma length_encode_page: "page_fits prevPage p \<Longrightarrow> 0 < length (encode_page prevPage p [])"
proof -
  assume "page_fits prevPage p"
  then have "0 \<le> pack_descriptor p (comment (flags p) \<noteq> [])"
    by (intro descriptor_roundtrip(1)) (simp_all add: page_fits_def)
  then show ?thesis
    by (simp add: encode_page_parts length_unpoll)
qed

lemma loop_roundtrip:
  "pages_fit prevPage pages \<Longrightarrow>
   decode_loop (pre @ map digit_of (encode_loop prevPage pages [])) prevPage (length pre) acc =
     Inr (acc @ pages)"
proof (induction pages arbitrary: prevPage pre acc)
  case Nil
  show ?case by (simp add: decode_loop_done)
next
  case (Cons p pages)
  then have p: "page_fits prevPage p" and rest: "pages_fit p pages" by simp_all
  define E where "E = encode_page prevPage p []"
  define R where "R = encode_loop p pages []"
  have enc: "encode_loop prevPage (p # pages) [] = E @ R"
    by (simp add: E_def R_def encode_loop_result [of p pages "encode_page prevPage p []"])
  have "decode_page (pre @ map digit_of E @ map digit_of R) prevPage (length pre) =
    Inr (p, length pre + length E)"
    unfolding E_def by (rule page_roundtrip [OF p])
  moreover have "length pre < length (pre @ map digit_of E @ map digit_of R)"
    using length_encode_page [OF p] by (simp add: E_def)
  ultimately have "decode_loop (pre @ map digit_of E @ map digit_of R) prevPage (length pre) acc =
    decode_loop (pre @ map digit_of E @ map digit_of R) p (length pre + length E) (acc @ [p])"
    by (rule decode_loop_step [rotated])
  also have "\<dots> = Inr ((acc @ [p]) @ pages)"
    using Cons.IH [OF rest, of "pre @ map digit_of E" "acc @ [p]"] by (simp add: R_def)
  finally show ?case
    unfolding enc by simp
qed

lemma encode_tagged: "encode pages = FUMEN_VERSION @ encode_loop new_FumenPage pages []"
  unfolding encode_def by (rule encode_loop_result)

lemma decode_encode:
  assumes "pages_fit new_FumenPage pages"
  shows "decode (encode pages) = Inr (Some pages)"
proof -
  have "numData_of (encode_loop new_FumenPage pages []) =
    map digit_of (encode_loop new_FumenPage pages [])"
    by (rule numData_of_alphabet) (rule encode_loop_alphabet)
  moreover have "decode_loop ([] @ map digit_of (encode_loop new_FumenPage pages []))
    new_FumenPage (length ([] :: nat list)) [] = Inr ([] @ pages)"
    by (rule loop_roundtrip [OF assms])
  ultimately show ?thesis
    by (simp add: decode_def encode_tagged)
qed

subsection \<open>Particular fields and strings\<close>

lemma encode_field_loop_run:
  "i + m \<le> FIELD_NUM_CELLS \<Longrightarrow> 0 < i \<Longrightarrow>
   \<forall>j. i \<le> j \<and> j < i + m \<longrightarrow> field_diff prev cur j = ld \<Longrightarrow>
   encode_field_loop cur prev i n ld result =
     encode_field_loop cur prev (i + m) (n + int m) ld result"
proof (induction m arbitrary: i n)
  case 0
  show ?case by simp
next
  case (Suc m)
  from Suc.prems have "i < FIELD_NUM_CELLS" "cur ! i - prev ! i + 8 = ld"
    by (simp_all add: field_diff_def [symmetric])
  then have "encode_field_loop cur prev i n ld result =
    encode_field_loop cur prev (Suc i) (n + 1) ld result"
    by (simp add: encode_field_loop_extend)
  also have "\<dots> = encode_field_loop cur prev (Suc i + m) (n + 1 + int m) ld result"
    by (rule Suc.IH) (use Suc.prems in simp_all)
  finally show ?case by (simp add: add.assoc)
qed

lemma encode_field_loop_first:
  "encode_field_loop cur prev 0 0 0 result =
     encode_field_loop cur prev 1 1 (field_diff prev cur 0) result"
  by (simp add: encode_field_loop_extend N240 field_diff_def)

lemma encode_field_loop_change:
  "i < FIELD_NUM_CELLS \<Longrightarrow> 0 < i \<Longrightarrow> field_diff prev cur i \<noteq> ld \<Longrightarrow>
   encode_field_loop cur prev i n ld result =
     encode_field_loop cur prev (Suc i) 1 (field_diff prev cur i)
       (result @ unpoll (run_value ld n) 2)"
  by (simp add: encode_field_loop_emit field_diff_def)

lemma encode_field_uniform:
  assumes "\<forall>j<FIELD_NUM_CELLS. field_diff prev cur j = d"
  shows "encode_field_loop cur prev 0 0 0 result = result @ unpoll (run_value d 240) 2"
proof -
  have "encode_field_loop cur prev 0 0 0 result = encode_field_loop cur prev 1 1 d result"
    using assms by (simp add: encode_field_loop_first N240)
  also have "\<dots> = encode_field_loop cur prev (1 + 239) (1 + int 239) d result"
    by (rule encode_field_loop_run) (use assms in \<open>simp_all add: N240\<close>)
  also have "\<dots> = result @ unpoll (run_value d 240) 2"
    by (simp add: encode_field_loop_last N240)
  finally show ?thesis .
qed

lemma encode_single:
  "encode [p] = FUMEN_VERSION @ encode_field_loop (field p) (field new_FumenPage) 0 0 0 [] @
     unpoll (pack_descriptor p (comment (flags p) \<noteq> [])) 3 @ encode_comment p"
  by (simp add: encode_def encode_page_parts)

lemma digits64_2: "digits64 v 2 = [v mod 64, v div 64 mod 64]"
  by (simp add: numeral_2_eq_2)

lemma digits64_3: "digits64 v 3 = [v mod 64, v div 64 mod 64, v div 64 div 64 mod 64]"
  by (simp add: numeral_3_eq_3)

lemma poll_at:
  "length pre = pos \<Longrightarrow> length ds = count \<Longrightarrow>
   poll (pre @ ds @ post) pos count = Inr (le_value ds, pos + count)"
  using poll_append [of pre ds post] by simp

lemma decode_field_advance:
  assumes "cellCount < FIELD_NUM_CELLS" "poll numData pos 2 = Inr (v, pos')"
  shows "\<exists>cur'. decode_field numData pos prev cur cellCount =
    decode_field numData pos' prev cur' (min (cellCount + (v mod FIELD_NUM_CELLS + 1)) FIELD_NUM_CELLS)"
  using decode_field_step [OF assms, of prev cur] assms(1)
  by (auto simp: fill_cells_count)

lemma diffs_fit_small:
  assumes "\<forall>j<FIELD_NUM_CELLS. 0 \<le> field_diff prev cur j \<and> field_diff prev cur j \<le> 16"
  shows "diffs_fit prev cur"
proof -
  have "\<exists>k\<in>{0..<17}. field_diff prev cur (i + k) \<noteq> 17" if "i < FIELD_NUM_CELLS - 16" for i
  proof -
    from that have "i < FIELD_NUM_CELLS" by simp
    with assms have "field_diff prev cur i \<le> 16" by simp
    then show ?thesis by (intro bexI [of _ 0]) simp_all
  qed
  then show ?thesis
    using assms by (auto simp: diffs_fit_def list_all_iff list_ex_iff)
qed

lemma poll_unpoll:
  assumes "0 \<le> v"
  shows "poll (numData_of (unpoll v n)) 0 n = Inr (nat v mod 64 ^ n, n)"
proof -
  have "numData_of (unpoll v n) = digits64 (nat v) n"
    using numData_of_alphabet [OF unpoll_alphabet, of v n] assms by (simp add: digit_of_unpoll)
  then show ?thesis
    using poll_digits64 [of "[]" "nat v" n "[]"] by simp
qed

lemma unpoll_3: "0 \<le> v \<Longrightarrow> v < 262144 \<Longrightarrow>
  unpoll v 3 = [ENCODE_TABLE ! nat (v mod 64), ENCODE_TABLE ! nat (v div 64 mod 64),
    ENCODE_TABLE ! nat (v div 64 div 64)]"
proof -
  assume "0 \<le> v" "v < 262144"
  then have "0 \<le> v div 64" "0 \<le> v div 64 div 64" "v div 64 div 64 < 64" by simp_all
  with \<open>0 \<le> v\<close> show ?thesis
    by (simp add: numeral_3_eq_3 js_rem_def table_symbol_def)
qed

lemma percentEncode_unreserved:
  assumes "\<forall>c\<in>set s. unreserved c"
  shows "percentEncode s = s"
proof -
  have byte: "c \<le> 255" if "unreserved c" for c
    using that by (auto simp: unreserved_def)
  with assms have "\<forall>c\<in>set s. c < 55296" by fastforce
  then have "percentEncode s = concat (map (\<lambda>c. percentEncode_char [c]) s)"
    by (simp add: percentEncode_def codePoints_single comp_def)
  also from assms have "\<dots> = s"
    by (induction s) (simp_all add: percentEncode_char_byte byte)
  finally show ?thesis .
qed

lemma new_page_fits: "page_fits new_FumenPage new_FumenPage"
proof -
  have "diffs_fit (field new_FumenPage) (field new_FumenPage)"
    by (rule diffs_fit_small) (simp add: field_diff_def)
  then show ?thesis
    by (simp add: page_fits_def)
      (simp add: new_FumenPage_def new_Flags_def new_Piece_def N_BLOCK_def North_def percentEncode_def)
qed

subsection \<open>The round trip of encode and decode\<close>

text \<open>
  Two page lists that satisfy every range condition the claim names and do not come
  back: a field of 240 cells of difference 17 is written as one run of value 4319,
  which two digits cannot hold, and a comment with a character of code point 256 is
  escaped as \<open>%100\<close>, which \<open>percentDecode\<close> reads as two characters.
\<close>

lemma overlong_run_decode:
  "decode (encode [new_FumenPage\<lparr>field := replicate 240 9\<rparr>]) = Inr None"
proof -
  define p where "p = new_FumenPage\<lparr>field := replicate 240 9\<rparr>"
  have "\<forall>j<FIELD_NUM_CELLS. field_diff (field new_FumenPage) (field p) j = 17"
    by (simp add: p_def new_FumenPage_def N240 field_diff_def)
  then have "encode_field_loop (field p) (field new_FumenPage) 0 0 0 [] = unpoll (run_value 17 240) 2"
    using encode_field_uniform [of "field new_FumenPage" "field p" 17 "[]"] by simp
  moreover have "run_value 17 240 = 4319"
    by (simp add: run_value_def N240)
  moreover have "pack_descriptor p (comment (flags p) \<noteq> []) = 30736"
    by (simp add: p_def pack_descriptor_def new_FumenPage_def new_Flags_def new_Piece_def
        N_BLOCK_def North_def N240)
  moreover have "encode_comment p = []"
    by (simp add: p_def encode_comment_def new_FumenPage_def new_Flags_def)
  ultimately have enc: "encode [p] = FUMEN_VERSION @ unpoll 4319 2 @ unpoll 30736 3"
    by (simp add: encode_single)
  have "numData_of (unpoll 4319 2 @ unpoll 30736 3) = map digit_of (unpoll 4319 2 @ unpoll 30736 3)"
    by (rule numData_of_alphabet) (use unpoll_alphabet in simp)
  also have "\<dots> = [31, 3, 16, 32, 7]"
    by (simp add: digit_of_unpoll digits64_2 digits64_3)
  finally have nd: "numData_of (unpoll 4319 2 @ unpoll 30736 3) = [31, 3, 16, 32, 7]" .
  define numData :: "nat list" where "numData = [31, 3, 16, 32, 7]"
  have "poll numData 0 2 = Inr (223, 2)"
    using poll_at [of "[]" 0 "[31, 3]" 2 "[16, 32, 7]"] by (simp add: numData_def)
  from decode_field_advance [OF _ this, of 0 "field new_FumenPage" "field new_FumenPage"]
  obtain cur1 where "decode_field numData 0 (field new_FumenPage) (field new_FumenPage) 0 =
    decode_field numData 2 (field new_FumenPage) cur1 224"
    by (auto simp: N240)
  moreover have "poll numData 2 2 = Inr (2064, 4)"
    using poll_at [of "[31, 3]" 2 "[16, 32]" 2 "[7]"] by (simp add: numData_def)
  from decode_field_advance [OF _ this, of 224 "field new_FumenPage" cur1]
  obtain cur2 where "decode_field numData 2 (field new_FumenPage) cur1 224 =
    decode_field numData 4 (field new_FumenPage) cur2 240"
    by (auto simp: N240)
  ultimately have "decode_field numData 0 (field new_FumenPage) (field new_FumenPage) 0 = Inr (cur2, 4)"
    by (simp add: decode_field_done N240)
  moreover have "poll numData 4 3 = Inl StreamEnded"
    by (simp add: poll_def numData_def)
  ultimately have "decode_page numData new_FumenPage 0 = Inl StreamEnded"
    by (simp add: decode_page_def)
  then have "decode_loop numData new_FumenPage 0 [] = Inl StreamEnded"
    by (intro decode_loop_fail) (simp_all add: numData_def)
  then have "decode (encode [p]) = Inr None"
    by (simp add: decode_def nd numData_def enc)
  then show ?thesis by (simp add: p_def)
qed

lemma wide_comment_decode:
  "decode (encode [new_FumenPage\<lparr>flags := (flags new_FumenPage)\<lparr>comment := [256]\<rparr>\<rparr>]) =
     Inr (Some [new_FumenPage\<lparr>flags := (flags new_FumenPage)\<lparr>comment := [16, 48]\<rparr>\<rparr>])"
proof -
  define q where "q = new_FumenPage\<lparr>flags := (flags new_FumenPage)\<lparr>comment := [256]\<rparr>\<rparr>"
  define q' where "q' = new_FumenPage\<lparr>flags := (flags new_FumenPage)\<lparr>comment := [16, 48]\<rparr>\<rparr>"
  define E where "E = encode_page new_FumenPage q []"
  have "toString16 256 = js ''100''"
    by (simp add: toString16.simps [of 256] toString16.simps [of 16] toString16.simps [of "Suc 0"]
        hex_digit_def)
  then have esc: "percentEncode (comment (flags q)) = js ''%100''"
    by (simp add: q_def percentEncode_def percentEncode_char_def)
  then have decoded: "percentDecode (percentEncode (comment (flags q))) = [16, 48]"
    by (simp add: is_hex_def hex_value_def fromCharCode_def)
  have "diffs_fit (field new_FumenPage) (field q)"
    by (rule diffs_fit_small) (simp add: q_def field_diff_def)
  then have "decode_page ([] @ map digit_of E @ []) new_FumenPage (length ([] :: nat list)) =
    Inr (q\<lparr>flags := (flags q)\<lparr>comment := percentDecode (percentEncode (comment (flags q)))\<rparr>\<rparr>,
      length ([] :: nat list) + length E)"
    unfolding E_def
    by (rule page_decode [rotated])
      (simp_all add: esc printable_def, simp_all add: q_def new_FumenPage_def new_Piece_def
        N_BLOCK_def North_def N240)
  then have page: "decode_page (map digit_of E) new_FumenPage 0 = Inr (q', length E)"
    by (simp add: decoded) (simp add: q_def q'_def)
  have "0 \<le> pack_descriptor q (comment (flags q) \<noteq> [])"
    by (simp add: pack_descriptor_def q_def new_FumenPage_def new_Piece_def N_BLOCK_def North_def)
  then have "0 < length E"
    by (simp add: E_def encode_page_parts length_unpoll)
  then have "decode_loop (map digit_of E) new_FumenPage 0 [] =
    decode_loop (map digit_of E) q' (length E) ([] @ [q'])"
    by (intro decode_loop_step [OF _ page]) simp
  then have "decode_loop (map digit_of E) new_FumenPage 0 [] = Inr [q']"
    by (simp add: decode_loop_done)
  moreover have "numData_of E = map digit_of E"
    unfolding E_def by (rule numData_of_alphabet) (rule encode_page_alphabet)
  moreover have "encode [q] = FUMEN_VERSION @ E"
    by (simp add: E_def encode_def encode_page_parts [of new_FumenPage q FUMEN_VERSION]
        encode_page_parts [of new_FumenPage q "[]"])
  ultimately show ?thesis
    by (simp add: decode_def q_def [symmetric] q'_def [symmetric])
qed

text \<open>
  Claim C1, as amended: for every list of pages in which each page has a field of 240
  cells, a piece type in \<open>[0, 8)\<close>, a rotation in \<open>[0, 4)\<close>, a location in
  \<open>[0, 240)\<close>, cell differences in \<open>[0, 17]\<close> against the page before it with no run
  of difference 17 longer than 16 cells (every run value is then below 4096), and a
  comment of characters up to code point 255 whose escaped form has at most 4095
  characters, decoding the encoded string gives back the page list.
\<close>

theorem encode_decode_roundtrip:
  "pages_fit new_FumenPage pages \<Longrightarrow> decode (encode pages) = Inr (Some pages)"
  by (rule decode_encode)

theorem encode_decode_roundtrip_witness:
  "decode (encode
     [new_FumenPage\<lparr>piece := \<lparr>type = 5, rotation = 2, location = 0\<rparr>\<rparr>,
      new_FumenPage\<lparr>field := (replicate 240 0)[5 := 9],
        piece := \<lparr>type = 7, rotation = 3, location = 239\<rparr>,
        flags := \<lparr>raise = True, mirror = False, color = True, lock = False,
          comment = js ''Hi %there!''\<rparr>\<rparr>]) =
   Inr (Some
     [new_FumenPage\<lparr>piece := \<lparr>type = 5, rotation = 2, location = 0\<rparr>\<rparr>,
      new_FumenPage\<lparr>field := (replicate 240 0)[5 := 9],
        piece := \<lparr>type = 7, rotation = 3, location = 239\<rparr>,
        flags := \<lparr>raise = True, mirror = False, color = True, lock = False,
          comment = js ''Hi %there!''\<rparr>\<rparr>])"
proof -
  define p1 where "p1 = new_FumenPage\<lparr>piece := \<lparr>type = 5, rotation = 2, location = 0\<rparr>\<rparr>"
  define p2 where "p2 = new_FumenPage\<lparr>field := (replicate 240 0)[5 := 9],
        piece := \<lparr>type = 7, rotation = 3, location = 239\<rparr>,
        flags := \<lparr>raise = True, mirror = False, color = True, lock = False,
          comment = js ''Hi %there!''\<rparr>\<rparr>"
  have "diffs_fit (field new_FumenPage) (field p1)"
    by (rule diffs_fit_small) (simp add: p1_def new_FumenPage_def field_diff_def N240)
  then have fits1: "page_fits new_FumenPage p1"
    by (simp add: page_fits_def) (simp add: p1_def new_FumenPage_def new_Flags_def N240 percentEncode_def)
  have d: "field_diff (field p1) (field p2) j = (if j = 5 then 17 else 8)" if "j < 240" for j
    using that by (simp add: p1_def p2_def new_FumenPage_def field_diff_def N240)
  have "\<exists>k\<in>{0..<17}. field_diff (field p1) (field p2) (i + k) \<noteq> 17" if "i < 224" for i
  proof (cases "i = 5")
    case True
    then show ?thesis using d [of 6] by (intro bexI [of _ 1]) simp_all
  next
    case False
    with that show ?thesis using d [of i] by (intro bexI [of _ 0]) simp_all
  qed
  then have "diffs_fit (field p1) (field p2)"
    using d by (simp add: diffs_fit_def list_all_iff list_ex_iff N240)
  moreover have "percentEncode (js ''Hi %there!'') = js ''Hi%20%25there%21''"
    by (simp add: percentEncode_def percentEncode_char_def toString16.simps hex_digit_def)
  ultimately have fits2: "page_fits p1 p2"
    by (simp add: page_fits_def) (simp add: p2_def new_FumenPage_def N240)
  from fits1 fits2 have "pages_fit new_FumenPage [p1, p2]" by simp
  from encode_decode_roundtrip [OF this] show ?thesis
    unfolding p1_def p2_def .
qed

theorem encode_decode_counterexample:
  "decode (encode [new_FumenPage\<lparr>field := replicate 240 9\<rparr>]) = Inr None \<and>
   decode (encode [new_FumenPage\<lparr>flags := (flags new_FumenPage)\<lparr>comment := [256]\<rparr>\<rparr>]) =
     Inr (Some [new_FumenPage\<lparr>flags := (flags new_FumenPage)\<lparr>comment := [16, 48]\<rparr>\<rparr>])"
  using overlong_run_decode wide_comment_decode by (rule conjI)

subsection \<open>Run values\<close>

text \<open>
  Claim C7, as amended: for a difference in \<open>[0, 17]\<close> and a run length in
  \<open>[1, 240]\<close> the run value \<open>diff * 240 + (runLength - 1)\<close> is below 4096 exactly when
  the difference is at most 16 or the run is at most 16 cells long; it then fits in two
  base-64 digits, which \<open>poll\<close> reads back unchanged.
\<close>

theorem run_value_fits:
  assumes "0 \<le> d" "d \<le> 17" "1 \<le> n" "n \<le> 240"
  shows "(run_value d n < 4096 \<longleftrightarrow> d \<le> 16 \<or> n \<le> 16) \<and>
    (d \<le> 16 \<or> n \<le> 16 \<longrightarrow>
      poll (numData_of (unpoll (run_value d n) 2)) 0 2 = Inr (nat (run_value d n), 2))"
proof -
  have nonneg: "0 \<le> run_value d n"
    using assms by (simp add: run_value_def N240)
  have iff: "run_value d n < 4096 \<longleftrightarrow> d \<le> 16 \<or> n \<le> 16"
  proof (cases "d \<le> 16")
    case True
    then have "d * 240 \<le> 16 * 240" by (rule mult_right_mono) simp
    with assms True show ?thesis by (simp add: run_value_def N240)
  next
    case False
    with assms have "d = 17" by simp
    then show ?thesis by (auto simp: run_value_def N240)
  qed
  moreover have "poll (numData_of (unpoll (run_value d n) 2)) 0 2 = Inr (nat (run_value d n), 2)"
    if "run_value d n < 4096"
    using poll_unpoll [OF nonneg, of 2] that nonneg by (simp add: nat_less_iff)
  ultimately show ?thesis by blast
qed

theorem run_value_fits_witness:
  "run_value 17 16 = 4095 \<and> poll (numData_of (unpoll (run_value 17 16) 2)) 0 2 = Inr (4095, 2) \<and>
   run_value 16 240 = 4079 \<and> poll (numData_of (unpoll (run_value 16 240) 2)) 0 2 = Inr (4079, 2)"
  using run_value_fits [of 17 16] run_value_fits [of 16 240]
  by (simp add: run_value_def N240)

theorem run_value_counterexample:
  "run_value 17 240 = 4319 \<and> \<not> run_value 17 240 < 4096 \<and>
   poll (numData_of (unpoll (run_value 17 240) 2)) 0 2 = Inr (223, 2)"
  using poll_unpoll [of 4319 2] by (simp add: run_value_def N240)

subsection \<open>The runs of a field with one changed cell\<close>

lemma single_cell_diff:
  assumes "length prev = FIELD_NUM_CELLS" "i < FIELD_NUM_CELLS" "prev ! i = 0" "j < FIELD_NUM_CELLS"
  shows "field_diff prev (prev[i := 1]) j = (if j = i then 9 else 8)"
  using assms by (simp add: field_diff_def nth_list_update)

lemma single_cell_encoding:
  assumes len: "length prev = FIELD_NUM_CELLS" and i: "i < FIELD_NUM_CELLS" and zero: "prev ! i = 0"
  shows "encode_field_loop (prev[i := 1]) prev 0 0 0 result = result @
     (if i = 0 then unpoll (run_value 9 1) 2 @ unpoll (run_value 8 239) 2
      else if i = 239 then unpoll (run_value 8 239) 2 @ unpoll (run_value 9 1) 2
      else unpoll (run_value 8 (int i)) 2 @ unpoll (run_value 9 1) 2 @
        unpoll (run_value 8 (239 - int i)) 2)"
proof -
  define cur where "cur = prev[i := 1]"
  note d = single_cell_diff [OF len i zero, folded cur_def]
  have first: "encode_field_loop cur prev 0 0 0 result =
    encode_field_loop cur prev 1 1 (if i = 0 then 9 else 8) result"
    using d [of 0] by (simp add: encode_field_loop_first N240)
  from i have "i = 0 \<or> i = 239 \<or> (0 < i \<and> i < 239)"
    unfolding N240 by linarith
  then consider "i = 0" | "i = 239" | "0 < i" "i < 239"
    by blast
  then show ?thesis
  proof cases
    case 1
    have "encode_field_loop cur prev 1 1 9 result =
      encode_field_loop cur prev (Suc 1) 1 8 (result @ unpoll (run_value 9 1) 2)"
      using encode_field_loop_change [of 1 prev cur 9 1 result] d [of 1] 1 by (simp add: N240)
    also have "\<dots> = encode_field_loop cur prev (Suc 1 + 238) (1 + int 238) 8
      (result @ unpoll (run_value 9 1) 2)"
      by (rule encode_field_loop_run) (use d 1 in \<open>simp_all add: N240\<close>)
    also have "\<dots> = (result @ unpoll (run_value 9 1) 2) @ unpoll (run_value 8 239) 2"
      by (simp add: encode_field_loop_last N240)
    finally show ?thesis
      using first 1 by (simp add: cur_def)
  next
    case 2
    have "encode_field_loop cur prev 1 1 8 result =
      encode_field_loop cur prev (1 + 238) (1 + int 238) 8 result"
      by (rule encode_field_loop_run) (use d 2 in \<open>simp_all add: N240\<close>)
    also have "\<dots> = encode_field_loop cur prev (Suc 239) 1 9 (result @ unpoll (run_value 8 239) 2)"
      using encode_field_loop_change [of 239 prev cur 8 239 result] d [of 239] 2 by (simp add: N240)
    also have "\<dots> = (result @ unpoll (run_value 8 239) 2) @ unpoll (run_value 9 1) 2"
      by (simp add: encode_field_loop_last N240)
    finally show ?thesis
      using first 2 by (simp add: cur_def)
  next
    case 3
    have "encode_field_loop cur prev 1 1 8 result =
      encode_field_loop cur prev (1 + (i - 1)) (1 + int (i - 1)) 8 result"
      by (rule encode_field_loop_run) (use d 3 in \<open>simp_all add: N240\<close>)
    also have "\<dots> = encode_field_loop cur prev i (int i) 8 result"
      using 3 by (simp add: of_nat_diff)
    also have "\<dots> = encode_field_loop cur prev (Suc i) 1 9 (result @ unpoll (run_value 8 (int i)) 2)"
      using encode_field_loop_change [of i prev cur 8 "int i" result] d [of i] 3 by (simp add: N240)
    also have "\<dots> = encode_field_loop cur prev (Suc (Suc i)) 1 8
      ((result @ unpoll (run_value 8 (int i)) 2) @ unpoll (run_value 9 1) 2)"
      using encode_field_loop_change [of "Suc i" prev cur 9 1] d [of "Suc i"] 3 by (simp add: N240)
    also have "\<dots> = encode_field_loop cur prev (Suc (Suc i) + (238 - i)) (1 + int (238 - i)) 8
      ((result @ unpoll (run_value 8 (int i)) 2) @ unpoll (run_value 9 1) 2)"
      by (rule encode_field_loop_run) (use d 3 in \<open>simp_all add: N240\<close>)
    also have "\<dots> = ((result @ unpoll (run_value 8 (int i)) 2) @ unpoll (run_value 9 1) 2) @
      unpoll (run_value 8 (239 - int i)) 2"
      using 3 by (simp add: encode_field_loop_last N240 of_nat_diff)
    finally show ?thesis
      using first 3 by (simp add: cur_def)
  qed
qed

lemma unpoll_2: "0 \<le> v \<Longrightarrow> v < 4096 \<Longrightarrow>
  unpoll v 2 = [ENCODE_TABLE ! nat (v mod 64), ENCODE_TABLE ! nat (v div 64)]"
proof -
  assume "0 \<le> v" "v < 4096"
  then have "0 \<le> v div 64" "v div 64 < 64" by simp_all
  with \<open>0 \<le> v\<close> show ?thesis
    by (simp add: numeral_2_eq_2 js_rem_def table_symbol_def)
qed

text \<open>
  Claim C9, as amended: when the field of a page differs from the field of the page
  before it in exactly one cell, changed from 0 to 1, the encoder never writes one
  merged run. It writes two run entries when the cell is the first or the last cell,
  and three otherwise: the unchanged cells before it, the changed cell, the unchanged
  cells after it.
\<close>

theorem single_cell_runs:
  assumes "length prev = FIELD_NUM_CELLS" "i < FIELD_NUM_CELLS" "prev ! i = 0"
  shows "encode_field_loop (prev[i := 1]) prev 0 0 0 result = result @
     (if i = 0 then unpoll (run_value 9 1) 2 @ unpoll (run_value 8 239) 2
      else if i = 239 then unpoll (run_value 8 239) 2 @ unpoll (run_value 9 1) 2
      else unpoll (run_value 8 (int i)) 2 @ unpoll (run_value 9 1) 2 @
        unpoll (run_value 8 (239 - int i)) 2)"
  using assms by (rule single_cell_encoding)

theorem single_cell_runs_witness:
  "encode_field_loop ((replicate 240 0)[239 := 1]) (replicate 240 0) 0 0 0 [] = js ''uhwh'' \<and>
   encode_field_loop ((replicate 240 0)[0 := 1]) (replicate 240 0) 0 0 0 [] = js ''whuh''"
  using single_cell_runs [of "replicate 240 0" 239 "[]"] single_cell_runs [of "replicate 240 0" 0 "[]"]
  by (simp add: N240 run_value_def unpoll_2 ENCODE_TABLE_def)

theorem single_cell_runs_counterexample:
  "encode_field_loop ((replicate 240 0)[5 := 1]) (replicate 240 0) 0 0 0 [] =
     unpoll (run_value 8 5) 2 @ unpoll (run_value 9 1) 2 @ unpoll (run_value 8 234) 2 \<and>
   encode_field_loop ((replicate 240 0)[5 := 1]) (replicate 240 0) 0 0 0 [] = js ''Eewhph''"
  using single_cell_encoding [of "replicate 240 0" 5 "[]"]
  by (simp add: N240 run_value_def unpoll_2 ENCODE_TABLE_def)

subsection \<open>Fillers\<close>

text \<open>
  Claim C5: a string obtained from a string of alphabet symbols by inserting filler
  characters anywhere gives the same digit list, and after the format tag it decodes to
  the same result.
\<close>

theorem fillers_ignored:
  assumes "set s \<subseteq> set ENCODE_TABLE" "filter (\<lambda>c. c \<noteq> of_char CHR ''?'') s' = s"
  shows "numData_of s' = numData_of s \<and> decode (FUMEN_VERSION @ s') = decode (FUMEN_VERSION @ s)"
proof -
  have ascii: "\<forall>c\<in>set s. c < 55296 \<and> c \<noteq> 63"
    using assms(1) ENCODE_TABLE_ascii by fastforce
  have "c < 55296" if "c \<in> set s'" for c
  proof (cases "c = 63")
    case False
    with that assms(2) have "c \<in> set s" by auto
    with ascii show ?thesis by simp
  qed simp
  then have "numData_of s' = map digit_of (filter (\<lambda>c. c \<noteq> 63) s')"
    by (intro numData_of_ascii) simp
  moreover have "numData_of s = map digit_of (filter (\<lambda>c. c \<noteq> 63) s)"
    using ascii by (intro numData_of_ascii) simp
  moreover have "filter (\<lambda>c. c \<noteq> 63) s = s"
    using ascii by (simp add: filter_id_conv)
  ultimately have "numData_of s' = numData_of s"
    using assms(2) by simp
  then show ?thesis
    by (simp add: decode_def)
qed

theorem fillers_ignored_witness:
  "numData_of (js ''?v?hV??gH?'') = numData_of (js ''vhVgH'') \<and>
   decode (js ''v115@?v?hV??gH?'') = decode (js ''v115@vhVgH'')"
  using fillers_ignored [of "js ''vhVgH''" "js ''?v?hV??gH?''"]
  by (simp add: ENCODE_TABLE_def FUMEN_VERSION_def)

subsection \<open>Truncated streams\<close>

lemma poll_throws: "(\<exists>e. poll data pos count = Inl e) \<longleftrightarrow> length data < pos + count"
  by (simp add: poll_def)





subsection \<open>Comment lengths\<close>

lemma decode_loop_prefix:
  "decode_loop numData prevPage pos pages = Inr ps \<Longrightarrow> prefix pages ps"
proof (induction numData prevPage pos pages rule: decode_loop.induct)
  case (1 numData prevPage pos pages)
  show ?case
  proof (cases "pos < length numData")
    case False
    with "1.prems" show ?thesis by (simp add: decode_loop_done)
  next
    case True
    show ?thesis
    proof (cases "decode_page numData prevPage pos")
      case (Inl e)
      with True "1.prems" show ?thesis by (simp add: decode_loop_fail)
    next
      case (Inr r)
      then have "decode_page numData prevPage pos = Inr (fst r, snd r)" by simp
      from decode_loop_step [OF True this] "1.prems"
      have "decode_loop numData (fst r) (snd r) (pages @ [fst r]) = Inr ps" by simp
      from "1.IH" [OF True Inr this] show ?thesis
        by (rule append_prefixD)
    qed
  qed
qed

lemma page_fits_comment:
  assumes "page_fits prevPage p" "list_all (\<lambda>c. c \<le> 255) s" "length (percentEncode s) \<le> 4095"
  shows "page_fits prevPage (p\<lparr>flags := (flags p)\<lparr>comment := s\<rparr>\<rparr>)"
  using assms by (simp add: page_fits_def)

text \<open>
  Claim C8, as amended: a comment of characters up to code point 255 whose escaped
  form has 0, 1, 4, 5 or 4095 characters comes back from \<open>decode\<close> on a page that
  otherwise satisfies the range conditions. \<open>encode\<close> rejects no comment: the two
  digits it writes for the length read back as the length modulo 4096.
\<close>

theorem comment_length_boundary:
  "(page_fits new_FumenPage p \<and> list_all (\<lambda>c. c \<le> 255) s \<and>
      length (percentEncode s) \<in> {0, 1, 4, 5, 4095} \<longrightarrow>
    decode (encode [p\<lparr>flags := (flags p)\<lparr>comment := s\<rparr>\<rparr>]) =
      Inr (Some [p\<lparr>flags := (flags p)\<lparr>comment := s\<rparr>\<rparr>])) \<and>
   poll (numData_of (unpoll (int (length (percentEncode s))) 2)) 0 2 =
     Inr (length (percentEncode s) mod 4096, 2)"
proof (intro conjI impI)
  assume a: "page_fits new_FumenPage p \<and> list_all (\<lambda>c. c \<le> 255) s \<and>
      length (percentEncode s) \<in> {0, 1, 4, 5, 4095}"
  then have "length (percentEncode s) \<le> 4095" by auto
  with a have "page_fits new_FumenPage (p\<lparr>flags := (flags p)\<lparr>comment := s\<rparr>\<rparr>)"
    by (intro page_fits_comment) simp_all
  then have "pages_fit new_FumenPage [p\<lparr>flags := (flags p)\<lparr>comment := s\<rparr>\<rparr>]" by simp
  then show "decode (encode [p\<lparr>flags := (flags p)\<lparr>comment := s\<rparr>\<rparr>]) =
      Inr (Some [p\<lparr>flags := (flags p)\<lparr>comment := s\<rparr>\<rparr>])"
    by (rule decode_encode)
next
  show "poll (numData_of (unpoll (int (length (percentEncode s))) 2)) 0 2 =
     Inr (length (percentEncode s) mod 4096, 2)"
    using poll_unpoll [of "int (length (percentEncode s))" 2] by simp
qed

theorem comment_length_boundary_witness:
  "decode (encode [new_FumenPage\<lparr>flags := (flags new_FumenPage)\<lparr>comment := replicate 4095 97\<rparr>\<rparr>]) =
     Inr (Some [new_FumenPage\<lparr>flags := (flags new_FumenPage)\<lparr>comment := replicate 4095 97\<rparr>\<rparr>]) \<and>
   percentEncode (replicate 4095 97) = replicate 4095 97 \<and>
   poll (numData_of (unpoll (int (length (percentEncode (replicate 4095 97)))) 2)) 0 2 =
     Inr (4095, 2)"
proof -
  have enc: "percentEncode (replicate 4095 97) = replicate 4095 97"
    by (rule percentEncode_unreserved) (simp add: unreserved_def)
  then have "length (percentEncode (replicate 4095 97)) = 4095"
    by simp
  with comment_length_boundary [of new_FumenPage "replicate 4095 97"] new_page_fits enc
  show ?thesis
    by (simp add: list_all_iff)
qed

theorem comment_length_counterexample:
  "prefix (js ''v115@vhQgWAA'')
     (encode [new_FumenPage\<lparr>flags := (flags new_FumenPage)\<lparr>comment := replicate 4096 97\<rparr>\<rparr>]) \<and>
   decode (encode [new_FumenPage\<lparr>flags := (flags new_FumenPage)\<lparr>comment := replicate 4096 97\<rparr>\<rparr>]) \<noteq>
     Inr (Some [new_FumenPage\<lparr>flags := (flags new_FumenPage)\<lparr>comment := replicate 4096 97\<rparr>\<rparr>])"
proof -
  define q where "q = new_FumenPage\<lparr>flags := (flags new_FumenPage)\<lparr>comment := replicate 4096 97\<rparr>\<rparr>"
  define rest where "rest = encode_chunks (replicate 4096 97) 0 []"
  define numData where "numData = [47, 33, 16, 32, 22, 0, 0] @ map digit_of rest"
  have esc: "percentEncode (replicate 4096 97) = replicate 4096 97"
    by (rule percentEncode_unreserved) (simp add: unreserved_def)
  have uniform: "\<forall>j<FIELD_NUM_CELLS. field_diff (field new_FumenPage) (field q) j = 8"
    by (simp add: q_def new_FumenPage_def field_diff_def N240)
  have comment: "comment (flags q) = replicate 4096 97"
    by (simp add: q_def)
  have "comment (flags q) \<noteq> []"
    unfolding comment by simp
  moreover have "pack_descriptor q True = 92176"
    by (simp add: q_def pack_descriptor_def new_FumenPage_def new_Flags_def new_Piece_def
        N_BLOCK_def North_def N240)
  moreover have "encode_chunks (replicate 4096 97) 0 (unpoll 4096 2) = unpoll 4096 2 @ rest"
    unfolding rest_def by (rule encode_chunks_result)
  ultimately have enc: "encode [q] = FUMEN_VERSION @ unpoll 2159 2 @ unpoll 92176 3 @ unpoll 4096 2 @ rest"
    using encode_field_uniform [OF uniform, of "[]"]
    by (simp add: encode_single encode_comment_def comment esc run_value_def N240)
  have alphabet: "set rest \<subseteq> set ENCODE_TABLE"
    unfolding rest_def by (rule encode_chunks_alphabet) simp
  have "numData_of (unpoll 2159 2 @ unpoll 92176 3 @ unpoll 4096 2 @ rest) =
    map digit_of (unpoll 2159 2 @ unpoll 92176 3 @ unpoll 4096 2 @ rest)"
    by (rule numData_of_alphabet) (use unpoll_alphabet alphabet in simp)
  also have "\<dots> = numData"
    by (simp add: digit_of_unpoll digits64_2 digits64_3 numData_def)
  finally have nd: "numData_of (unpoll 2159 2 @ unpoll 92176 3 @ unpoll 4096 2 @ rest) = numData" .
  have "poll numData 0 2 = Inr (2159, 2)"
    using poll_at [of "[]" 0 "[47, 33]" 2 "[16, 32, 22, 0, 0] @ map digit_of rest"]
    by (simp add: numData_def)
  from decode_field_advance [OF _ this, of 0 "field new_FumenPage" "field new_FumenPage"]
  obtain cur where field: "decode_field numData 0 (field new_FumenPage) (field new_FumenPage) 0 =
    Inr (cur, 2)"
    by (auto simp: N240 decode_field_done)
  have descriptor: "poll numData 2 3 = Inr (92176, 5)"
    using poll_at [of "[47, 33]" 2 "[16, 32, 22]" 3 "[0, 0] @ map digit_of rest"]
    by (simp add: numData_def)
  have has: "snd (unpack_descriptor 92176 (new_FumenPage\<lparr>field := cur\<rparr>))"
    by (simp add: unpack_descriptor_def Let_def N240)
  have "poll numData 5 2 = Inr (0, 7)"
    using poll_at [of "[47, 33, 16, 32, 22]" 5 "[0, 0]" 2 "map digit_of rest"]
    by (simp add: numData_def)
  then have "decode_comment numData 5 = Inr ([], 7)"
    by (simp add: decode_comment_def)
  with field descriptor has obtain q' where page: "decode_page numData new_FumenPage 0 = Inr (q', 7)"
    and empty: "comment (flags q') = []"
    by (simp add: decode_page_def Let_def)
  have "decode_loop numData new_FumenPage 0 [] \<noteq> Inr [q]"
  proof
    assume "decode_loop numData new_FumenPage 0 [] = Inr [q]"
    moreover have "decode_loop numData new_FumenPage 0 [] = decode_loop numData q' 7 ([] @ [q'])"
      by (rule decode_loop_step [OF _ page]) (simp add: numData_def)
    ultimately have "prefix ([] @ [q']) [q]"
      by (intro decode_loop_prefix [of numData q' 7]) simp
    then have "q' = q" by simp
    with empty comment show False by simp
  qed
  then have "decode (encode [q]) \<noteq> Inr (Some [q])"
    by (auto simp: decode_def enc nd split: sum.splits)
  moreover have "unpoll 4096 2 = js ''AA''"
    by (simp add: numeral_2_eq_2 js_rem_def table_symbol_def ENCODE_TABLE_def)
  then have "encode [q] = js ''v115@vhQgWAA'' @ rest"
    by (simp add: enc FUMEN_VERSION_def unpoll_2 unpoll_3 ENCODE_TABLE_def)
  then have "prefix (js ''v115@vhQgWAA'') (encode [q])"
    by (simp only: prefixI)
  ultimately show ?thesis
    unfolding q_def by (rule conjI [rotated])
qed

subsection \<open>The piece type in the packed descriptor\<close>

lemma eighth_type_page:
  assumes fit: "length (field p) = FIELD_NUM_CELLS" "diffs_fit (field prevPage) (field p)"
    and ranges: "type (piece p) = 8" "0 \<le> rotation (piece p)" "rotation (piece p) < 4"
      "0 \<le> location (piece p)" "location (piece p) < 240"
  shows "(\<exists>e. decode_page (map digit_of (encode_page prevPage p [])) prevPage 0 = Inl e) \<or>
    (\<exists>q pos. decode_page (map digit_of (encode_page prevPage p [])) prevPage 0 = Inr (q, pos) \<and>
       type (piece q) = 0)"
proof -
  define F where "F = encode_field_loop (field p) (field prevPage) 0 0 0 []"
  define hc where "hc \<longleftrightarrow> comment (flags p) \<noteq> []"
  define D where "D = unpoll (pack_descriptor p hc) 3"
  define C where "C = encode_comment p"
  define data where "data = map digit_of (encode_page prevPage p [])"
  have enc: "encode_page prevPage p [] = F @ D @ C"
    using encode_page_parts [of prevPage p "[]"] by (simp add: F_def D_def C_def hc_def)
  obtain r l where rl: "rotation (piece p) = int r" "location (piece p) = int l"
    using ranges(2,4) by (metis nat_0_le)
  with ranges have less: "r < 4" "l < 240" by simp_all
  define x where "x = r + 4 * (l + 240 * (bit_of (raise (flags p)) + 2 * (bit_of (mirror (flags p)) +
      2 * (bit_of (color (flags p)) + 2 * (bit_of hc + 2 * bit_of (\<not> lock (flags p)))))))"
  have "type (piece p) = int 8" using ranges(1) by simp
  from pack_descriptor_nat [OF this rl, of hc]
  have packed: "pack_descriptor p hc = int (8 + 8 * x)"
    unfolding x_def .
  have "bit_of b \<le> 1" for b
    by (simp add: bit_of_def)
  from this [of "raise (flags p)"] this [of "mirror (flags p)"] this [of "color (flags p)"]
    this [of hc] this [of "\<not> lock (flags p)"] less
  have "x \<le> 30719"
    unfolding x_def by simp
  then have bound: "8 + 8 * x < 64 ^ 3" by simp
  have nonneg: "0 \<le> pack_descriptor p hc"
    unfolding packed by (rule of_nat_0_le_iff)
  have value_nat: "nat (pack_descriptor p hc) = 8 + 8 * x"
    unfolding packed by (rule nat_int)
  have D: "map digit_of D = digits64 (8 + 8 * x) 3" "length D = 3"
    unfolding D_def by (simp_all only: digit_of_unpoll [OF nonneg] length_unpoll [OF nonneg] value_nat)
  have field: "decode_field data 0 (field prevPage) (field new_FumenPage) 0 =
    Inr (field p, length F)"
    using field_roundtrip [OF fit, of "field new_FumenPage" "[]" "map digit_of (D @ C)"]
    by (simp add: data_def enc F_def new_FumenPage_def)
  have poll: "poll data (length F) 3 = Inr (8 + 8 * x, length F + 3)"
    using poll_digits64 [of "map digit_of F" "8 + 8 * x" 3 "map digit_of C"] bound
    by (simp add: data_def enc D)
  define u where "u = unpack_descriptor (8 + 8 * x) (new_FumenPage\<lparr>field := field p\<rparr>)"
  have zero: "type (piece (fst u)) = 0"
    by (simp add: u_def unpack_descriptor_def Let_def)
  have page: "decode_page data prevPage 0 =
    (if snd u then
       (case decode_comment data (length F + 3) of
          Inl e \<Rightarrow> Inl e
        | Inr c \<Rightarrow> Inr ((fst u)\<lparr>flags := (flags (fst u))\<lparr>comment := fst c\<rparr>\<rparr>, snd c))
     else Inr (fst u, length F + 3))"
    unfolding decode_page_def field by (simp add: poll u_def [symmetric] Let_def)
  show ?thesis
  proof (cases "snd u")
    case False
    with page zero show ?thesis
      unfolding data_def [symmetric] by simp
  next
    case True
    show ?thesis
    proof (cases "decode_comment data (length F + 3)")
      case (Inl e)
      with page True show ?thesis
        unfolding data_def [symmetric] by simp
    next
      case (Inr c)
      with page True zero show ?thesis
        unfolding data_def [symmetric] by simp
    qed
  qed
qed

lemma eighth_type_decode:
  assumes fit: "length (field p) = FIELD_NUM_CELLS" "diffs_fit (field new_FumenPage) (field p)"
    and ranges: "type (piece p) = 8" "0 \<le> rotation (piece p)" "rotation (piece p) < 4"
      "0 \<le> location (piece p)" "location (piece p) < 240"
  shows "decode (encode [p]) = Inr None \<or>
    (\<exists>q qs. decode (encode [p]) = Inr (Some (q # qs)) \<and> type (piece q) = 0)"
proof -
  define E where "E = encode_page new_FumenPage p []"
  define numData where "numData = map digit_of E"
  have nd: "numData_of E = numData"
    unfolding E_def numData_def by (rule numData_of_alphabet) (rule encode_page_alphabet)
  have enc: "encode [p] = FUMEN_VERSION @ E"
    by (simp add: E_def encode_def encode_page_parts [of new_FumenPage p FUMEN_VERSION]
        encode_page_parts [of new_FumenPage p "[]"])
  have result: "decode (encode [p]) =
    (case decode_loop numData new_FumenPage 0 [] of Inl e \<Rightarrow> Inr None | Inr pages \<Rightarrow> Inr (Some pages))"
    by (simp add: decode_def enc nd)
  show ?thesis
  proof (cases "decode_loop numData new_FumenPage 0 []")
    case (Inl e)
    with result show ?thesis by simp
  next
    case (Inr pages)
    have "length numData \<noteq> 0"
    proof
      assume "length numData = 0"
      then have "decode_loop numData new_FumenPage 0 [] = Inr []"
        by (simp add: decode_loop_done)
      moreover have "0 < length (unpoll (pack_descriptor p (comment (flags p) \<noteq> [])) 3)"
        by (simp add: numeral_3_eq_3 table_symbol_def)
      then have "0 < length numData"
        by (simp add: numData_def E_def encode_page_parts)
      ultimately show False using \<open>length numData = 0\<close> by simp
    qed
    then have less: "0 < length numData" by simp
    from eighth_type_page [OF fit ranges] consider
      e where "decode_page numData new_FumenPage 0 = Inl e"
    | q pos where "decode_page numData new_FumenPage 0 = Inr (q, pos)" "type (piece q) = 0"
      unfolding numData_def E_def by blast
    then show ?thesis
    proof cases
      case 1
      from decode_loop_fail [OF less this] Inr show ?thesis by simp
    next
      case 2
      from decode_loop_step [OF less 2(1), of "[]"] Inr
      have "decode_loop numData q pos ([] @ [q]) = Inr pages" by simp
      then have "prefix ([] @ [q]) pages" by (rule decode_loop_prefix)
      then obtain qs where "pages = q # qs"
        by (auto simp: prefix_def)
      with result Inr 2(2) show ?thesis by simp
    qed
  qed
qed

lemma descriptor_type_aliasing:
  assumes "0 \<le> type (piece p)" "type (piece p) \<le> 8"
    "0 \<le> rotation (piece p)" "rotation (piece p) < 4"
    "0 \<le> location (piece p)" "location (piece p) < 240"
  shows "\<exists>v. poll (numData_of (unpoll (pack_descriptor p hasComment) 3)) 0 3 = Inr (v, 3) \<and>
    type (piece (fst (unpack_descriptor v currentPage))) =
      (if type (piece p) = 8 then 0 else type (piece p))"
proof -
  obtain t r l where trl: "type (piece p) = int t" "rotation (piece p) = int r"
    "location (piece p) = int l"
    using assms(1,3,5) by (metis nat_0_le)
  with assms have less: "t \<le> 8" "r < 4" "l < 240" by simp_all
  define x where "x = r + 4 * (l + 240 * (bit_of (raise (flags p)) + 2 * (bit_of (mirror (flags p)) +
      2 * (bit_of (color (flags p)) + 2 * (bit_of hasComment + 2 * bit_of (\<not> lock (flags p)))))))"
  have packed: "pack_descriptor p hasComment = int (t + 8 * x)"
    unfolding x_def by (rule pack_descriptor_nat [OF trl])
  have "bit_of b \<le> 1" for b
    by (simp add: bit_of_def)
  from this [of "raise (flags p)"] this [of "mirror (flags p)"] this [of "color (flags p)"]
    this [of hasComment] this [of "\<not> lock (flags p)"] less(2,3)
  have "x \<le> 30719"
    unfolding x_def by simp
  with less(1) have "t + 8 * x < 64 ^ 3" by simp
  then have "poll (numData_of (unpoll (pack_descriptor p hasComment) 3)) 0 3 = Inr (t + 8 * x, 3)"
    using poll_unpoll [of "pack_descriptor p hasComment" 3] by (simp add: packed)
  moreover have "type (piece (fst (unpack_descriptor (t + 8 * x) currentPage))) = int (t mod 8)"
    by (simp add: unpack_descriptor_def Let_def)
  moreover have "int (t mod 8) = (if type (piece p) = 8 then 0 else type (piece p))"
    using less(1) by (simp add: trl)
  ultimately show ?thesis by simp
qed

lemma eighth_type_carry:
  assumes fits: "page_fits new_FumenPage (p\<lparr>piece := (piece p)\<lparr>type := 0\<rparr>\<rparr>)"
    and eight: "type (piece p) = 8" and low: "rotation (piece p) < 3"
  shows "decode (encode [p]) =
    Inr (Some [p\<lparr>piece := (piece p)\<lparr>type := 0, rotation := rotation (piece p) + 1\<rparr>\<rparr>])"
proof -
  define p' where "p' = p\<lparr>piece := (piece p)\<lparr>type := 0, rotation := rotation (piece p) + 1\<rparr>\<rparr>"
  have same: "field p' = field p" "flags p' = flags p"
    and piece: "type (piece p') = 0" "rotation (piece p') = rotation (piece p) + 1"
      "location (piece p') = location (piece p)"
    by (simp_all add: p'_def)
  have "pack_descriptor p hc = pack_descriptor p' hc" for hc
    unfolding pack_descriptor_def same piece eight by (simp add: Let_def)
  then have "encode [p] = encode [p']"
    unfolding encode_single encode_comment_def same by simp
  moreover from fits low have "page_fits new_FumenPage p'"
    unfolding page_fits_def same piece by simp
  then have "decode (encode [p']) = Inr (Some [p'])"
    by (intro decode_encode) simp
  ultimately show ?thesis
    unfolding p'_def by simp
qed

text \<open>
  Claim C6, as amended: with the radixes 8, 4, 240, 2, 2, 2, 2, 2, the three descriptor
  digits that \<open>encode\<close> writes for a page read back with the piece type for the values
  0 to 7 and with 0 for the value 8. A page of piece type 0 to 7 that is otherwise in
  range comes back from \<open>decode\<close>; a page of piece type 8 never does: the carry out of
  the type digit changes the fields packed above it, and \<open>decode\<close> returns either
  \<open>null\<close> or a page list whose first page has piece type 0. When the rotation is below
  3, it returns the page with piece type 0 and the rotation one higher.
\<close>

theorem type_aliasing:
  assumes "page_fits new_FumenPage (p\<lparr>piece := (piece p)\<lparr>type := 0\<rparr>\<rparr>)"
    and "0 \<le> type (piece p)" "type (piece p) \<le> 8"
  shows "(\<exists>v. poll (numData_of (unpoll (pack_descriptor p hasComment) 3)) 0 3 = Inr (v, 3) \<and>
      type (piece (fst (unpack_descriptor v currentPage))) =
        (if type (piece p) = 8 then 0 else type (piece p))) \<and>
    (type (piece p) < 8 \<longrightarrow> decode (encode [p]) = Inr (Some [p])) \<and>
    (type (piece p) = 8 \<longrightarrow>
      decode (encode [p]) = Inr None \<or>
      (\<exists>q qs. decode (encode [p]) = Inr (Some (q # qs)) \<and> type (piece q) = 0)) \<and>
    (type (piece p) = 8 \<and> rotation (piece p) < 3 \<longrightarrow>
      decode (encode [p]) =
        Inr (Some [p\<lparr>piece := (piece p)\<lparr>type := 0, rotation := rotation (piece p) + 1\<rparr>\<rparr>]))"
proof (intro conjI impI)
  from assms(1) have fit: "length (field p) = FIELD_NUM_CELLS"
      "diffs_fit (field new_FumenPage) (field p)"
    and ranges: "0 \<le> rotation (piece p)" "rotation (piece p) < 4"
      "0 \<le> location (piece p)" "location (piece p) < 240"
    by (simp_all add: page_fits_def)
  show "\<exists>v. poll (numData_of (unpoll (pack_descriptor p hasComment) 3)) 0 3 = Inr (v, 3) \<and>
      type (piece (fst (unpack_descriptor v currentPage))) =
        (if type (piece p) = 8 then 0 else type (piece p))"
    by (rule descriptor_type_aliasing [OF assms(2,3) ranges])
  show "decode (encode [p]) = Inr (Some [p])" if "type (piece p) < 8"
  proof -
    from assms(1,2) that have "page_fits new_FumenPage p"
      by (simp add: page_fits_def)
    then show ?thesis
      by (intro decode_encode) simp
  qed
  show "decode (encode [p]) = Inr None \<or>
      (\<exists>q qs. decode (encode [p]) = Inr (Some (q # qs)) \<and> type (piece q) = 0)"
    if "type (piece p) = 8"
    by (rule eighth_type_decode [OF fit that ranges])
  show "decode (encode [p]) =
      Inr (Some [p\<lparr>piece := (piece p)\<lparr>type := 0, rotation := rotation (piece p) + 1\<rparr>\<rparr>])"
    if "type (piece p) = 8 \<and> rotation (piece p) < 3"
    using that by (intro eighth_type_carry [OF assms(1)]) simp_all
qed

theorem type_aliasing_witness:
  "poll (numData_of (unpoll (pack_descriptor
      (new_FumenPage\<lparr>piece := \<lparr>type = G_BLOCK, rotation = 2, location = 0\<rparr>\<rparr>) False) 3)) 0 3 =
     Inr (30744, 3) \<and>
   type (piece (fst (unpack_descriptor 30744 new_FumenPage))) = 0 \<and>
   decode (encode [new_FumenPage\<lparr>piece := \<lparr>type = G_BLOCK, rotation = 2, location = 0\<rparr>\<rparr>]) =
     Inr (Some [new_FumenPage\<lparr>piece := \<lparr>type = N_BLOCK, rotation = 3, location = 0\<rparr>\<rparr>]) \<and>
   decode (encode [new_FumenPage\<lparr>piece := \<lparr>type = 7, rotation = 2, location = 0\<rparr>\<rparr>]) =
     Inr (Some [new_FumenPage\<lparr>piece := \<lparr>type = 7, rotation = 2, location = 0\<rparr>\<rparr>])"
proof -
  define s where "s = new_FumenPage\<lparr>piece := \<lparr>type = 7, rotation = 2, location = 0\<rparr>\<rparr>"
  have "type (piece s) = 7" "rotation (piece s) = 2" "location (piece s) = 0"
    "field s = field new_FumenPage" "flags s = flags new_FumenPage"
    by (simp_all add: s_def)
  moreover from this new_page_fits
  have "page_fits new_FumenPage (s\<lparr>piece := (piece s)\<lparr>type := 0\<rparr>\<rparr>)"
    unfolding page_fits_def by simp
  note type_aliasing [OF this, of False new_FumenPage]
  ultimately have seventh: "decode (encode [s]) = Inr (Some [s])"
    by simp
  define p where "p = new_FumenPage\<lparr>piece := \<lparr>type = G_BLOCK, rotation = 2, location = 0\<rparr>\<rparr>"
  have "pack_descriptor p False = 30744"
    by (simp add: p_def pack_descriptor_def new_FumenPage_def new_Flags_def G_BLOCK_def N240)
  then have polled: "poll (numData_of (unpoll (pack_descriptor p False) 3)) 0 3 = Inr (30744, 3)"
    using poll_unpoll [of 30744 3] by simp
  have piece: "type (piece p) = 8" "rotation (piece p) = 2" "location (piece p) = 0"
    and same: "field p = field new_FumenPage" "flags p = flags new_FumenPage"
    by (simp_all add: p_def G_BLOCK_def)
  from new_page_fits have fits: "page_fits new_FumenPage (p\<lparr>piece := (piece p)\<lparr>type := 0\<rparr>\<rparr>)"
    unfolding page_fits_def by (simp add: piece same)
  note all = type_aliasing [OF fits, of False new_FumenPage]
  from all polled piece
  have aliased: "type (piece (fst (unpack_descriptor 30744 new_FumenPage))) = 0"
    by simp
  from all piece have "decode (encode [p]) =
    Inr (Some [p\<lparr>piece := (piece p)\<lparr>type := 0, rotation := rotation (piece p) + 1\<rparr>\<rparr>])"
    by simp
  moreover have "p\<lparr>piece := (piece p)\<lparr>type := 0, rotation := rotation (piece p) + 1\<rparr>\<rparr> =
    new_FumenPage\<lparr>piece := \<lparr>type = N_BLOCK, rotation = 3, location = 0\<rparr>\<rparr>"
    by (simp add: p_def N_BLOCK_def)
  ultimately have "decode (encode [p]) =
    Inr (Some [new_FumenPage\<lparr>piece := \<lparr>type = N_BLOCK, rotation = 3, location = 0\<rparr>\<rparr>])"
    by simp
  with polled aliased seventh show ?thesis
    unfolding p_def s_def by simp
qed

theorem type_aliasing_counterexample:
  "encode [new_FumenPage\<lparr>piece := \<lparr>type = G_BLOCK, rotation = 3, location = 239\<rparr>,
      flags := \<lparr>raise = True, mirror = True, color = True, lock = True, comment = []\<rparr>\<rparr>] =
     js ''v115@vhAAP'' \<and>
   decode (encode [new_FumenPage\<lparr>piece := \<lparr>type = G_BLOCK, rotation = 3, location = 239\<rparr>,
      flags := \<lparr>raise = True, mirror = True, color = True, lock = True, comment = []\<rparr>\<rparr>]) =
     Inr None"
proof -
  define p where "p = new_FumenPage\<lparr>piece := \<lparr>type = G_BLOCK, rotation = 3, location = 239\<rparr>,
      flags := \<lparr>raise = True, mirror = True, color = True, lock = True, comment = []\<rparr>\<rparr>"
  define numData :: "nat list" where "numData = [47, 33, 0, 0, 15]"
  have uniform: "\<forall>j<FIELD_NUM_CELLS. field_diff (field new_FumenPage) (field p) j = 8"
    by (simp add: p_def new_FumenPage_def field_diff_def N240)
  have "pack_descriptor p (comment (flags p) \<noteq> []) = 61440"
    by (simp add: p_def pack_descriptor_def G_BLOCK_def N240)
  moreover have "encode_comment p = []"
    by (simp add: p_def encode_comment_def)
  ultimately have enc: "encode [p] = FUMEN_VERSION @ unpoll 2159 2 @ unpoll 61440 3"
    using encode_field_uniform [OF uniform, of "[]"]
    by (simp add: encode_single run_value_def N240)
  then have written: "encode [p] = js ''v115@vhAAP''"
    by (simp add: FUMEN_VERSION_def unpoll_2 unpoll_3 ENCODE_TABLE_def)
  have "numData_of (unpoll 2159 2 @ unpoll 61440 3) = map digit_of (unpoll 2159 2 @ unpoll 61440 3)"
    by (rule numData_of_alphabet) (use unpoll_alphabet in simp)
  also have "\<dots> = numData"
    by (simp add: digit_of_unpoll digits64_2 digits64_3 numData_def)
  finally have nd: "numData_of (unpoll 2159 2 @ unpoll 61440 3) = numData" .
  have "poll numData 0 2 = Inr (2159, 2)"
    using poll_at [of "[]" 0 "[47, 33]" 2 "[0, 0, 15]"] by (simp add: numData_def)
  from decode_field_advance [OF _ this, of 0 "field new_FumenPage" "field new_FumenPage"]
  obtain cur where field: "decode_field numData 0 (field new_FumenPage) (field new_FumenPage) 0 =
    Inr (cur, 2)"
    by (auto simp: N240 decode_field_done)
  have descriptor: "poll numData 2 3 = Inr (61440, 5)"
    using poll_at [of "[47, 33]" 2 "[0, 0, 15]" 3 "[]"] by (simp add: numData_def)
  have has: "snd (unpack_descriptor 61440 (new_FumenPage\<lparr>field := cur\<rparr>))"
    by (simp add: unpack_descriptor_def Let_def N240)
  have "poll numData 5 2 = Inl StreamEnded"
    by (simp add: poll_def numData_def)
  then have "decode_comment numData 5 = Inl StreamEnded"
    by (simp add: decode_comment_def)
  with field descriptor has have "decode_page numData new_FumenPage 0 = Inl StreamEnded"
    by (simp add: decode_page_def Let_def)
  then have "decode_loop numData new_FumenPage 0 [] = Inl StreamEnded"
    by (intro decode_loop_fail) (simp_all add: numData_def)
  then have "decode (encode [p]) = Inr None"
    by (simp add: decode_def enc nd)
  with written show ?thesis
    unfolding p_def by simp
qed

subsection \<open>The outcomes of decode\<close>

text \<open>
  Claim C3: for every input that does not begin with the format tag, \<open>decode\<close> returns
  \<open>null\<close>; it neither throws nor returns pages.
\<close>

theorem decode_rejects_untagged:
  "\<not> prefix FUMEN_VERSION data \<Longrightarrow> decode data = Inr None"
  by (simp add: decode_def)

theorem decode_rejects_untagged_witness:
  "\<not> prefix FUMEN_VERSION (js ''v110@vhVgH'') \<and> decode (js ''v110@vhVgH'') = Inr None"
  using decode_rejects_untagged [of "js ''v110@vhVgH''"]
  by (simp add: FUMEN_VERSION_def)

text \<open>
  Claim C10: for every input string \<open>decode\<close> returns, and what it returns is either
  \<open>null\<close> or a \<open>Fumen\<close> object; no exception reaches the caller, since what the
  page loop throws (the error of \<open>poll\<close>) is caught and mapped to \<open>null\<close>. That the
  loops end is the content of the termination proofs of \<open>decode_field\<close> and
  \<open>decode_loop\<close>.
\<close>

theorem decode_never_throws:
  "(decode data = Inr None \<or> (\<exists>pages. decode data = Inr (Some pages))) \<and>
   (prefix FUMEN_VERSION data \<and>
    decode_loop (numData_of (drop (length FUMEN_VERSION) data)) new_FumenPage 0 [] = Inl e \<longrightarrow>
    decode data = Inr None)"
  by (simp add: decode_def Let_def split: sum.splits)

theorem decode_never_throws_witness:
  "decode_loop (numData_of (drop (length FUMEN_VERSION) (js ''v115@v''))) new_FumenPage 0 [] =
     Inl StreamEnded \<and>
   decode (js ''v115@v'') = Inr None"
proof -
  have "numData_of (js ''v'') = map digit_of (js ''v'')"
    by (rule numData_of_alphabet) (simp add: ENCODE_TABLE_def)
  then have nd: "numData_of (js ''v'') = [digit_of 118]"
    by simp
  have "poll [digit_of 118] 0 2 = Inl StreamEnded"
    by (simp add: poll_def)
  then have "decode_field [digit_of 118] 0 (field new_FumenPage) (field new_FumenPage) 0 =
    Inl StreamEnded"
    by (intro decode_field_fail) (simp_all add: N240)
  then have "decode_page [digit_of 118] new_FumenPage 0 = Inl StreamEnded"
    by (simp add: decode_page_def)
  then have "decode_loop [digit_of 118] new_FumenPage 0 [] = Inl StreamEnded"
    by (intro decode_loop_fail) simp_all
  with decode_never_throws [of "js ''v115@v''" StreamEnded] nd show ?thesis
    by (simp add: FUMEN_VERSION_def)
qed

end
